theory Spec2Isabelle
  imports Complex_Main "HOL-Library.Sublist"
begin

section \<open>Data model (types.ts)\<close>

text \<open>
  Strings are sequences of code units. The embedding takes the texts whose code units
  are below 256, which the 8-bit \<^typ>\<open>char\<close> represents one to one; \<open>length\<close> is
  then the \<open>.length\<close> of the source. Numbers that hold counts and positions are
  \<^typ>\<open>nat\<close>. Numbers that hold weights and scores are \<^typ>\<open>real\<close>: the source
  computes them in double precision, and the embedding computes them exactly, so what
  is proved of them is proved of the algorithm without rounding.
\<close>

datatype ContentType = narrative | atomic

record Document =
  name :: string
  type' :: string
  size' :: nat

record Chunk =
  source :: string
  chunkIndex :: nat
  text' :: string
  metadata :: "ContentType option"

section \<open>documentProcessor.ts\<close>

record ChunkConfig =
  csize :: nat
  overlap :: nat

definition NARRATIVE_CHUNK_CONFIG :: ChunkConfig where
  "NARRATIVE_CHUNK_CONFIG = \<lparr>csize = 800, overlap = 80\<rparr>"

definition ATOMIC_CHUNK_CONFIG :: ChunkConfig where
  "ATOMIC_CHUNK_CONFIG = \<lparr>csize = 400, overlap = 40\<rparr>"

definition NEWLINE_DENSITY_THRESHOLD :: real where
  "NEWLINE_DENSITY_THRESHOLD = 3 / 100"

definition newline :: char where
  "newline = CHR 0x0A"

text \<open>\<open>(text.match(/\n/g) || []).length\<close>: the number of line feeds of the text.\<close>

definition newlineCount :: "string \<Rightarrow> nat" where
  "newlineCount txt = length (filter (\<lambda>c. c = newline) txt)"

definition analyzeContentType :: "string \<Rightarrow> ContentType" where
  "analyzeContentType txt =
     (if length txt = 0 then narrative
      else let newlineDensity = real (newlineCount txt) / real (length txt)
           in if newlineDensity > NEWLINE_DENSITY_THRESHOLD then atomic else narrative)"

text \<open>
  \<open>text.substring(start, end)\<close> on non-negative arguments: both are clamped to the
  length, and swapped when \<open>start > end\<close>.
\<close>

definition substring :: "string \<Rightarrow> nat \<Rightarrow> nat \<Rightarrow> string" where
  "substring s start end =
     (let a = min start (length s); b = min end (length s)
      in take (max a b - min a b) (drop (min a b) s))"

text \<open>
  The \<open>while\<close> loop of \<open>intelligentChunking\<close>, with its three variables \<open>index\<close>,
  \<open>chunkIndex\<close> and \<open>chunks\<close>. \<open>nextIndex\<close> is computed in \<^typ>\<open>int\<close>, where the
  subtraction is the source's; the loop is left (\<open>break\<close>) when it does not advance.
\<close>

function chunkLoop ::
  "ChunkConfig \<Rightarrow> ContentType \<Rightarrow> string \<Rightarrow> string \<Rightarrow> nat \<Rightarrow> nat \<Rightarrow> Chunk list \<Rightarrow> Chunk list"
where
  "chunkLoop config contentType txt sourceName index cIndex chunks =
     (if index < length txt then
        (let end = min (index + csize config) (length txt);
             pushed = chunks @ [\<lparr>source = sourceName, chunkIndex = cIndex,
                                 text' = substring txt index end,
                                 metadata = Some contentType\<rparr>];
             nextIndex = int index + int (csize config) - int (overlap config)
         in if nextIndex \<le> int index then pushed
            else chunkLoop config contentType txt sourceName (nat nextIndex) (cIndex + 1) pushed)
      else chunks)"
  by pat_completeness auto
termination
  by (relation "measure (\<lambda>(config, contentType, txt, sourceName, index, cIndex, chunks).
        length txt - index)") auto

declare chunkLoop.simps [simp del]

text \<open>The chunker for a given configuration: the loop started at \<open>index = 0\<close>, \<open>chunkIndex = 0\<close>.\<close>

definition chunkWith :: "ChunkConfig \<Rightarrow> ContentType \<Rightarrow> string \<Rightarrow> string \<Rightarrow> Chunk list" where
  "chunkWith config contentType txt sourceName =
     chunkLoop config contentType txt sourceName 0 0 []"

definition intelligentChunking :: "string \<Rightarrow> string \<Rightarrow> Chunk list \<times> ContentType" where
  "intelligentChunking txt sourceName =
     (let contentType = analyzeContentType txt;
          config = (if contentType = narrative then NARRATIVE_CHUNK_CONFIG
                    else ATOMIC_CHUNK_CONFIG)
      in (chunkWith config contentType txt sourceName, contentType))"

section \<open>vectorService.ts\<close>

subsection \<open>Tokenization\<close>

definition charCode :: "char \<Rightarrow> nat" where
  "charCode c = of_char c"

text \<open>\<open>toLowerCase\<close> on the code units below 256: A-Z and the accented capitals.\<close>

definition toLowerChar :: "char \<Rightarrow> char" where
  "toLowerChar c =
     (let n = charCode c
      in if (65 \<le> n \<and> n \<le> 90) \<or> (192 \<le> n \<and> n \<le> 214) \<or> (216 \<le> n \<and> n \<le> 222)
         then char_of (n + 32) else c)"

definition toLowerCase :: "string \<Rightarrow> string" where
  "toLowerCase s = map toLowerChar s"

text \<open>The class \<open>\w\<close> is \<open>[A-Za-z0-9_]\<close>.\<close>

definition isWordChar :: "char \<Rightarrow> bool" where
  "isWordChar c =
     (let n = charCode c
      in (48 \<le> n \<and> n \<le> 57) \<or> (65 \<le> n \<and> n \<le> 90) \<or> n = 95 \<or> (97 \<le> n \<and> n \<le> 122))"

text \<open>
  The class \<open>\s\<close> below 256: tab, line feed, vertical tab, form feed, carriage return,
  space and the no-break space.
\<close>

definition isSpace :: "char \<Rightarrow> bool" where
  "isSpace c = (let n = charCode c in (9 \<le> n \<and> n \<le> 13) \<or> n = 32 \<or> n = 160)"

text \<open>\<open>.replace(/[^\w\s]/g, '')\<close>\<close>

definition removePunctuation :: "string \<Rightarrow> string" where
  "removePunctuation s = filter (\<lambda>c. isWordChar c \<or> isSpace c) s"

text \<open>
  \<open>.split(/\s+/)\<close>: the pieces between the maximal runs of white space, the empty
  pieces at both ends included (the empty string splits into one empty piece).
\<close>

function splitWhitespace :: "string \<Rightarrow> string list" where
  "splitWhitespace [] = [[]]"
| "splitWhitespace (c # cs) =
     (if isSpace c then [] # splitWhitespace (dropWhile isSpace cs)
      else (case splitWhitespace cs of
              [] \<Rightarrow> [[c]]
            | p # ps \<Rightarrow> (c # p) # ps))"
  by pat_completeness auto
termination
  by (relation "measure length") (auto simp: le_imp_less_Suc length_dropWhile_le)

definition tokenize :: "string \<Rightarrow> string list" where
  "tokenize txt =
     filter (\<lambda>word. length word > 0)
       (splitWhitespace (removePunctuation (toLowerCase txt)))"

subsection \<open>Map and Set\<close>

text \<open>
  A \<open>Map\<close> is the list of its entries in insertion order, which is the order
  \<open>forEach\<close> and \<open>keys()\<close> follow. \<open>Map_set\<close> keeps the place of a key that is
  present and appends a new one. The keys of a \<open>Map\<close> are distinct (\<open>wfMap\<close>).
\<close>

fun Map_set :: "('k \<times> 'v) list \<Rightarrow> 'k \<Rightarrow> 'v \<Rightarrow> ('k \<times> 'v) list" where
  "Map_set [] k v = [(k, v)]"
| "Map_set ((k', v') # m) k v =
     (if k' = k then (k', v) # m else (k', v') # Map_set m k v)"

definition Map_get :: "('k \<times> 'v) list \<Rightarrow> 'k \<Rightarrow> 'v option" where
  "Map_get m k = map_of m k"

definition wfMap :: "('k \<times> 'v) list \<Rightarrow> bool" where
  "wfMap m = distinct (map fst m)"

text \<open>\<open>m.get(k) || 0\<close>\<close>

definition getOrZero :: "('k \<times> 'v::zero) list \<Rightarrow> 'k \<Rightarrow> 'v" where
  "getOrZero m k = (case Map_get m k of None \<Rightarrow> 0 | Some v \<Rightarrow> v)"

text \<open>A \<open>Set\<close> is the list of its elements in insertion order.\<close>

definition Set_add :: "'a list \<Rightarrow> 'a \<Rightarrow> 'a list" where
  "Set_add s x = (if x \<in> set s then s else s @ [x])"

definition new_Set :: "'a list \<Rightarrow> 'a list" where
  "new_Set xs = foldl Set_add [] xs"

subsection \<open>TF-IDF\<close>

text \<open>\<open>m.set(term, (m.get(term) || 0) + 1)\<close>\<close>

definition increment :: "('k \<times> nat) list \<Rightarrow> 'k \<Rightarrow> ('k \<times> nat) list" where
  "increment m term = Map_set m term (getOrZero m term + 1)"

text \<open>The body of the first \<open>chunks.forEach\<close> of \<open>calculateIdf\<close>, for one chunk.\<close>

definition countDocument :: "(string \<times> nat) list \<Rightarrow> Chunk \<Rightarrow> (string \<times> nat) list" where
  "countDocument docFrequency c =
     (let uniqueTerms = new_Set (tokenize (text' c))
      in foldl increment docFrequency uniqueTerms)"

definition docFrequencyOf :: "Chunk list \<Rightarrow> (string \<times> nat) list" where
  "docFrequencyOf chunks = foldl countDocument [] chunks"

definition calculateIdf :: "Chunk list \<Rightarrow> (string \<times> real) list" where
  "calculateIdf chunks =
     (let totalDocs = length chunks
      in if totalDocs = 0 then []
         else foldl (\<lambda>idfMap (term, df).
                       let idf = ln ((real totalDocs + 1) / (real df + 1)) + 1
                       in Map_set idfMap term idf)
                    [] (docFrequencyOf chunks))"

definition vectorizeWithTfidf :: "string \<Rightarrow> (string \<times> real) list \<Rightarrow> (string \<times> real) list" where
  "vectorizeWithTfidf txt idfMap =
     (let tokens = tokenize txt
      in if length tokens = 0 then []
         else let termFrequency = foldl increment [] tokens
              in foldl (\<lambda>tfidfVector (term, tf).
                          let idf = getOrZero idfMap term;
                              normalizedTf = real tf / real (length tokens)
                          in Map_set tfidfVector term (normalizedTf * idf))
                       [] termFrequency)"

subsection \<open>Similarity\<close>

text \<open>
  The similarity with every operation exact. The ranking is stated on it. The function
  as the source computes it, with every operation rounded to a double, is
  \<open>cosineSimilarity_double\<close> in the next section.
\<close>

definition dotProductOf :: "(string \<times> real) list \<Rightarrow> (string \<times> real) list \<Rightarrow> real" where
  "dotProductOf vecA vecB =
     (let allKeys = new_Set (map fst vecA @ map fst vecB)
      in foldl (\<lambda>dotProduct key. dotProduct + getOrZero vecA key * getOrZero vecB key)
               0 allKeys)"

definition magnitudeOf :: "(string \<times> real) list \<Rightarrow> real" where
  "magnitudeOf vec = sqrt (foldl (\<lambda>magnitude v. magnitude + v * v) 0 (map snd vec))"

definition cosineSimilarity :: "(string \<times> real) list \<Rightarrow> (string \<times> real) list \<Rightarrow> real" where
  "cosineSimilarity vecA vecB =
     (let dotProduct = dotProductOf vecA vecB;
          magnitudeA = magnitudeOf vecA;
          magnitudeB = magnitudeOf vecB
      in if magnitudeA = 0 \<or> magnitudeB = 0 then 0
         else dotProduct / (magnitudeA * magnitudeB))"

section \<open>App.tsx: the knowledge base\<close>

text \<open>The decimal digits of a number, as a template literal prints it.\<close>

function decimal :: "nat \<Rightarrow> string" where
  "decimal n = (if n < 10 then [char_of (48 + n)]
                else decimal (n div 10) @ [char_of (48 + n mod 10)])"
  by pat_completeness auto
termination
  by (relation "measure id") auto

declare decimal.simps [simp del]

definition getChunkId :: "Chunk \<Rightarrow> string" where
  "getChunkId c = source c @ ''_'' @ decimal (chunkIndex c)"

text \<open>The four state variables of the component that make up the knowledge base.\<close>

record KnowledgeBase =
  documents :: "Document list"
  chunks :: "Chunk list"
  idfMap :: "(string \<times> real) list"
  chunkTfidfVectors :: "(string \<times> (string \<times> real) list) list"

definition emptyKnowledgeBase :: KnowledgeBase where
  "emptyKnowledgeBase = \<lparr>documents = [], chunks = [], idfMap = [], chunkTfidfVectors = []\<rparr>"

text \<open>The effect that runs whenever \<open>chunks\<close> has changed.\<close>

definition recalculate :: "KnowledgeBase \<Rightarrow> KnowledgeBase" where
  "recalculate kb =
     (if length (chunks kb) = 0 then kb\<lparr>idfMap := [], chunkTfidfVectors := []\<rparr>
      else let newIdfMap = calculateIdf (chunks kb);
               newChunkVectors =
                 foldl (\<lambda>m c. Map_set m (getChunkId c) (vectorizeWithTfidf (text' c) newIdfMap))
                       [] (chunks kb)
           in kb\<lparr>idfMap := newIdfMap, chunkTfidfVectors := newChunkVectors\<rparr>)"

text \<open>
  \<open>addDocumentToKnowledgeBase\<close>: the two updates of the knowledge base, followed by
  the effect. The chat message it posts is not part of the knowledge base.
\<close>

definition addDocumentToKnowledgeBase ::
  "KnowledgeBase \<Rightarrow> string \<Rightarrow> string \<Rightarrow> nat \<Rightarrow> string \<Rightarrow> KnowledgeBase" where
  "addDocumentToKnowledgeBase kb fileName fileType fileSize textContent =
     (let (newChunks, contentType) = intelligentChunking textContent fileName
      in recalculate
           (kb\<lparr>documents := documents kb @ [\<lparr>name = fileName, type' = fileType, size' = fileSize\<rparr>],
               chunks := chunks kb @ newChunks\<rparr>))"








section \<open>vectorService.ts: cosineSimilarity in double precision\<close>

text \<open>
  The numbers of the source are IEEE 754 double-precision values. A \<open>double\<close> is a
  finite value, an infinity or NaN; the two zeros are one value, as they are for
  \<open>===\<close> and \<open>||\<close>. Each operation gives the exact result rounded to the nearest
  double, ties to the even significand: 53 significant bits, exponents from -1022 (with
  the subnormal values below) to 1023, and the infinity beyond. \<open>Math.sqrt\<close> is the
  correctly rounded square root.
\<close>

datatype double = Finite real | PInf | NInf | NaN

definition pow2 :: "int \<Rightarrow> real" where
  "pow2 k = (if 0 \<le> k then 2 ^ nat k else 1 / 2 ^ nat (- k))"

text \<open>The number of binary digits of a positive integer.\<close>

function bitLength :: "int \<Rightarrow> int" where
  "bitLength n =
     (if n \<le> 0 then 0
      else if 18446744073709551616 \<le> n then 64 + bitLength (n div 18446744073709551616)
      else 1 + bitLength (n div 2))"
  by pat_completeness auto
termination
  by (relation "measure nat") auto

declare bitLength.simps [simp del]

text \<open>The exponent \<open>e\<close> of a positive number \<open>x\<close>: \<open>2 ^ e \<le> x < 2 ^ (e + 1)\<close>.\<close>

definition exponentOf :: "real \<Rightarrow> int" where
  "exponentOf x =
     (if 1 \<le> x then bitLength \<lfloor>x\<rfloor> - 1
      else let f = bitLength \<lfloor>1 / x\<rfloor> - 1
           in if x * pow2 f = 1 then - f else - f - 1)"

text \<open>The nearest integer, ties to the even one.\<close>

definition roundEven :: "real \<Rightarrow> int" where
  "roundEven n =
     (let m = \<lfloor>n\<rfloor>; f = n - of_int m
      in if f < 1 / 2 then m
         else if 1 / 2 < f then m + 1
         else if even m then m else m + 1)"

text \<open>A positive number rounded to a multiple of the spacing of the doubles around it.\<close>

definition roundPos :: "real \<Rightarrow> double" where
  "roundPos x =
     (let e = max (exponentOf x) (- 1022);
          q = pow2 (e - 52);
          v = of_int (roundEven (x / q)) * q
      in if pow2 1024 \<le> v then PInf else Finite v)"

definition negate :: "double \<Rightarrow> double" where
  "negate d = (case d of Finite r \<Rightarrow> Finite (- r) | PInf \<Rightarrow> NInf | NInf \<Rightarrow> PInf | NaN \<Rightarrow> NaN)"

definition roundDouble :: "real \<Rightarrow> double" where
  "roundDouble x =
     (if x = 0 then Finite 0
      else if 0 < x then roundPos x
      else negate (roundPos (- x)))"

text \<open>A result of the arithmetic: a finite value is one that rounding leaves as it is.\<close>

definition representable :: "double \<Rightarrow> bool" where
  "representable d = (case d of Finite r \<Rightarrow> roundDouble r = Finite r | _ \<Rightarrow> True)"

text \<open>The integer square root, rounded down.\<close>

function isqrt :: "int \<Rightarrow> int" where
  "isqrt n =
     (if n < 2 then max n 0
      else let r = 2 * isqrt (n div 4)
           in if (r + 1) * (r + 1) \<le> n then r + 1 else r)"
  by pat_completeness auto
termination
  by (relation "measure nat") auto

declare isqrt.simps [simp del]

text \<open>
  The square root of a positive number, rounded to 53 bits: the integer square root
  of the number scaled by a power of four, then the comparison with the midpoint.
\<close>

definition sqrtPos :: "real \<Rightarrow> double" where
  "sqrtPos x =
     (let k = exponentOf x div 2 - 52;
          y = x / pow2 (2 * k);
          m = isqrt \<lfloor>y\<rfloor>;
          h = of_int (m * m + m) + 1 / 4;
          m' = (if y < h then m
                else if h < y then m + 1
                else if even m then m else m + 1)
      in Finite (of_int m' * pow2 k))"

fun fadd :: "double \<Rightarrow> double \<Rightarrow> double" where
  "fadd (Finite a) (Finite b) = roundDouble (a + b)"
| "fadd (Finite a) PInf = PInf"
| "fadd (Finite a) NInf = NInf"
| "fadd PInf (Finite b) = PInf"
| "fadd NInf (Finite b) = NInf"
| "fadd PInf PInf = PInf"
| "fadd NInf NInf = NInf"
| "fadd PInf NInf = NaN"
| "fadd NInf PInf = NaN"
| "fadd NaN y = NaN"
| "fadd x NaN = NaN"

fun fmul :: "double \<Rightarrow> double \<Rightarrow> double" where
  "fmul (Finite a) (Finite b) = roundDouble (a * b)"
| "fmul (Finite a) PInf = (if a = 0 then NaN else if 0 < a then PInf else NInf)"
| "fmul (Finite a) NInf = (if a = 0 then NaN else if 0 < a then NInf else PInf)"
| "fmul PInf (Finite b) = (if b = 0 then NaN else if 0 < b then PInf else NInf)"
| "fmul NInf (Finite b) = (if b = 0 then NaN else if 0 < b then NInf else PInf)"
| "fmul PInf PInf = PInf"
| "fmul NInf NInf = PInf"
| "fmul PInf NInf = NInf"
| "fmul NInf PInf = NInf"
| "fmul NaN y = NaN"
| "fmul x NaN = NaN"

text \<open>
  Division. A zero divisor is taken as the positive zero: the divisors of
  \<open>cosineSimilarity\<close> are products of square roots.
\<close>

fun fdiv :: "double \<Rightarrow> double \<Rightarrow> double" where
  "fdiv (Finite a) (Finite b) =
     (if b = 0 then (if a = 0 then NaN else if 0 < a then PInf else NInf)
      else roundDouble (a / b))"
| "fdiv (Finite a) PInf = Finite 0"
| "fdiv (Finite a) NInf = Finite 0"
| "fdiv PInf (Finite b) = (if 0 \<le> b then PInf else NInf)"
| "fdiv NInf (Finite b) = (if 0 \<le> b then NInf else PInf)"
| "fdiv PInf PInf = NaN"
| "fdiv NInf NInf = NaN"
| "fdiv PInf NInf = NaN"
| "fdiv NInf PInf = NaN"
| "fdiv NaN y = NaN"
| "fdiv x NaN = NaN"

fun fsqrt :: "double \<Rightarrow> double" where
  "fsqrt (Finite a) = (if a < 0 then NaN else if a = 0 then Finite 0 else sqrtPos a)"
| "fsqrt PInf = PInf"
| "fsqrt NInf = NaN"
| "fsqrt NaN = NaN"

text \<open>\<open>m.get(k) || 0\<close>: a missing key, a zero and NaN all give 0.\<close>

definition getOrZero_double :: "('k \<times> double) list \<Rightarrow> 'k \<Rightarrow> double" where
  "getOrZero_double m k =
     (case Map_get m k of
        None \<Rightarrow> Finite 0
      | Some v \<Rightarrow> if v = NaN \<or> v = Finite 0 then Finite 0 else v)"

definition dotProduct_double :: "(string \<times> double) list \<Rightarrow> (string \<times> double) list \<Rightarrow> double" where
  "dotProduct_double vecA vecB =
     (let allKeys = new_Set (map fst vecA @ map fst vecB)
      in foldl (\<lambda>dotProduct key.
                  fadd dotProduct (fmul (getOrZero_double vecA key) (getOrZero_double vecB key)))
               (Finite 0) allKeys)"

definition magnitude_double :: "(string \<times> double) list \<Rightarrow> double" where
  "magnitude_double vec =
     fsqrt (foldl (\<lambda>magnitude v. fadd magnitude (fmul v v)) (Finite 0) (map snd vec))"

definition cosineSimilarity_double ::
  "(string \<times> double) list \<Rightarrow> (string \<times> double) list \<Rightarrow> double" where
  "cosineSimilarity_double vecA vecB =
     (let dotProduct = dotProduct_double vecA vecB;
          magnitudeA = magnitude_double vecA;
          magnitudeB = magnitude_double vecB
      in if magnitudeA = Finite 0 \<or> magnitudeB = Finite 0 then Finite 0
         else fdiv dotProduct (fmul magnitudeA magnitudeB))"

section \<open>Notions of the specification\<close>

text \<open>The characters of \<open>s\<close> at the positions \<open>a \<le> p < b\<close>.\<close>

definition span :: "string \<Rightarrow> nat \<Rightarrow> nat \<Rightarrow> string" where
  "span s a b = take (b - a) (drop a s)"

text \<open>
  The \<open>i\<close>-th window of the specification: it starts at \<open>i\<close> times the advance
  \<open>size - overlap\<close> and ends at \<open>offset + size\<close> or at the end of the text.
\<close>

definition windowChunk :: "ChunkConfig \<Rightarrow> ContentType \<Rightarrow> string \<Rightarrow> string \<Rightarrow> nat \<Rightarrow> Chunk" where
  "windowChunk config contentType txt sourceName i =
     (let offset = i * (csize config - overlap config)
      in \<lparr>source = sourceName, chunkIndex = i,
          text' = span txt offset (min (offset + csize config) (length txt)),
          metadata = Some contentType\<rparr>)"

text \<open>The number of windows whose offset lies inside the text.\<close>

definition windowCount :: "ChunkConfig \<Rightarrow> string \<Rightarrow> nat" where
  "windowCount config txt =
     (length txt + (csize config - overlap config) - 1) div (csize config - overlap config)"

text \<open>
  Concatenation with the overlap removed: the first chunk whole, and every later
  chunk without its first \<open>ov\<close> characters, up to its end.
\<close>

definition removeOverlap :: "nat \<Rightarrow> Chunk list \<Rightarrow> string" where
  "removeOverlap ov cs =
     (case cs of
        [] \<Rightarrow> []
      | c # rest \<Rightarrow> text' c @ concat (map (\<lambda>c. drop ov (text' c)) rest))"

text \<open>
  The concatenation as claim C8 words it: the overlap is removed from the chunks
  between the first and the final one, and the final chunk is kept in full.
\<close>

definition removeOverlapKeepingFinal :: "nat \<Rightarrow> Chunk list \<Rightarrow> string" where
  "removeOverlapKeepingFinal ov cs =
     (case cs of
        [] \<Rightarrow> []
      | c # rest \<Rightarrow>
          (if rest = [] then text' c
           else text' c @ concat (map (\<lambda>c. drop ov (text' c)) (butlast rest))
                  @ text' (last rest)))"

text \<open>The newline density of the specification: line feeds per character.\<close>

definition newlineDensity :: "string \<Rightarrow> real" where
  "newlineDensity txt = real (count_list txt newline) / real (length txt)"

text \<open>
  The document frequency of the specification: the number of chunks whose tokens
  include the term, however often it occurs in each.
\<close>

definition documentFrequency :: "Chunk list \<Rightarrow> string \<Rightarrow> nat" where
  "documentFrequency cs t = length (filter (\<lambda>c. t \<in> set (tokenize (text' c))) cs)"


text \<open>The products of the weights of two vectors, added in the order of a list of keys.\<close>

definition sumOfProducts ::
  "(string \<times> double) list \<Rightarrow> (string \<times> double) list \<Rightarrow> string list \<Rightarrow> double" where
  "sumOfProducts a b ks =
     foldl (\<lambda>d k. fadd d (fmul (getOrZero_double a k) (getOrZero_double b k))) (Finite 0) ks"

text \<open>The weights of a vector are numbers: none is an infinity.\<close>

definition finiteWeights :: "(string \<times> double) list \<Rightarrow> bool" where
  "finiteWeights m = list_all (\<lambda>v. v \<noteq> PInf \<and> v \<noteq> NInf) (map snd m)"

text \<open>The keys of \<open>a\<close> that \<open>b\<close> holds too, in the order of \<open>a\<close>.\<close>

definition commonKeys :: "(string \<times> double) list \<Rightarrow> (string \<times> double) list \<Rightarrow> string list" where
  "commonKeys a b = filter (\<lambda>k. k \<in> set (map fst b)) (map fst a)"

text \<open>
  The score of a chunk for a query, in a state of the knowledge base: the cosine
  similarity of the query vector and the vector stored under the id of the chunk, and 0
  when none is stored.
\<close>

definition chunkScore :: "KnowledgeBase \<Rightarrow> string \<Rightarrow> Chunk \<Rightarrow> real" where
  "chunkScore kb query c =
     (case Map_get (chunkTfidfVectors kb) (getChunkId c) of
        None \<Rightarrow> 0
      | Some chunkVector \<Rightarrow> cosineSimilarity (vectorizeWithTfidf query (idfMap kb)) chunkVector)"



section \<open>The content classifier\<close>

lemma newlineCount_count_list: "newlineCount txt = count_list txt newline"
  by (induction "txt") (simp_all add: newlineCount_def)

lemma analyzeContentType_cases:
  "analyzeContentType txt =
     (if txt \<noteq> [] \<and> newlineDensity txt > 3 / 100 then atomic else narrative)"
  by (simp add: analyzeContentType_def NEWLINE_DENSITY_THRESHOLD_def Let_def
      newlineDensity_def newlineCount_count_list)

lemma analyzeContentType_atomic_iff:
  "(analyzeContentType txt = atomic) = (3 * length txt < 100 * newlineCount txt)"
proof (cases "txt = []")
  case True
  then show ?thesis by (simp add: analyzeContentType_def newlineCount_def)
next
  case False
  then have "0 < real (length txt)" by simp
  then have "(3 / 100 < real (newlineCount txt) / real (length txt))
             = (3 * real (length txt) < 100 * real (newlineCount txt))"
    by (simp add: field_simps)
  also have "\<dots> = (3 * length txt < 100 * newlineCount txt)"
    by (metis (mono_tags, opaque_lifting) of_nat_less_iff of_nat_mult of_nat_numeral)
  finally show ?thesis using False
    by (simp add: analyzeContentType_def NEWLINE_DENSITY_THRESHOLD_def Let_def)
qed

text \<open>
  Claim C9. The classifier answers \<open>atomic\<close> exactly when the text is not empty and
  its newline density (line feeds divided by length) is above 0.03, and \<open>narrative\<close>
  otherwise, the empty text included. In whole numbers: exactly when one hundred times
  the number of line feeds exceeds three times the length. Being a function of the text
  alone, it gives the same answer for the same text.
\<close>

theorem analyzeContentType_newline_density:
  "analyzeContentType txt =
     (if txt \<noteq> [] \<and> newlineDensity txt > 3 / 100 then atomic else narrative)
   \<and> (analyzeContentType txt = atomic) = (3 * length txt < 100 * newlineCount txt)
   \<and> (analyzeContentType txt = narrative) = (100 * newlineCount txt \<le> 3 * length txt)
   \<and> analyzeContentType [] = narrative"
proof -
  have "(analyzeContentType txt = narrative) = (analyzeContentType txt \<noteq> atomic)"
    by (cases "analyzeContentType txt") simp_all
  then have "(analyzeContentType txt = narrative) = (100 * newlineCount txt \<le> 3 * length txt)"
    by (simp add: analyzeContentType_atomic_iff not_less)
  moreover have "analyzeContentType [] = narrative"
    by (simp add: analyzeContentType_def)
  ultimately show ?thesis
    using analyzeContentType_cases analyzeContentType_atomic_iff by blast
qed

section \<open>The chunker\<close>

lemma windowCount_iff:
  assumes "overlap config < csize config"
  shows "(i < windowCount config txt) = (i * (csize config - overlap config) < length txt)"
proof -
  let ?d = "csize config - overlap config"
  have d: "0 < ?d" using assms by simp
  have "(i < windowCount config txt) = (Suc i \<le> (length txt + ?d - 1) div ?d)"
    by (simp add: windowCount_def Suc_le_eq)
  also have "\<dots> = (Suc i * ?d \<le> length txt + ?d - 1)"
    using d by (simp only: less_eq_div_iff_mult_less_eq)
  also have "\<dots> = (i * ?d < length txt)"
    using d by auto
  finally show ?thesis .
qed

lemma substring_span: "a \<le> b \<Longrightarrow> b \<le> length s \<Longrightarrow> substring s a b = span s a b"
  by (simp add: substring_def span_def Let_def min_absorb1 max_absorb2)

lemma chunkLoop_windows:
  assumes "overlap config < csize config"
  shows "chunkLoop config ct txt src (k * (csize config - overlap config)) k acc =
         acc @ map (windowChunk config ct txt src) [k..<windowCount config txt]"
proof (induction "windowCount config txt - k" arbitrary: k acc)
  case 0
  then have "\<not> k < windowCount config txt" by simp
  then have "\<not> k * (csize config - overlap config) < length txt"
    using windowCount_iff [OF assms] by simp
  with 0 show ?case by (subst chunkLoop.simps) simp
next
  case (Suc n)
  let ?d = "csize config - overlap config"
  let ?w = "windowChunk config ct txt src"
  have k: "k < windowCount config txt" using Suc.hyps(2) by simp
  then have lt: "k * ?d < length txt" using windowCount_iff [OF assms] by simp
  have "nat (int (k * ?d) + int (csize config) - int (overlap config)) = k * ?d + ?d"
    using assms by linarith
  then have nx: "nat (int (k * ?d) + int (csize config) - int (overlap config)) = Suc k * ?d"
    by simp
  have advance: "\<not> int (k * ?d) + int (csize config) - int (overlap config) \<le> int (k * ?d)"
    using assms by simp
  have sub: "substring txt (k * ?d) (min (k * ?d + csize config) (length txt))
             = span txt (k * ?d) (min (k * ?d + csize config) (length txt))"
    using lt by (intro substring_span) auto
  have ih: "chunkLoop config ct txt src (Suc k * ?d) (Suc k) (acc @ [?w k])
            = (acc @ [?w k]) @ map ?w [Suc k..<windowCount config txt]"
    using Suc.hyps(2) by (intro Suc.hyps(1)) simp
  have "chunkLoop config ct txt src (k * ?d) k acc
        = chunkLoop config ct txt src (Suc k * ?d) (Suc k) (acc @ [?w k])"
    apply (subst chunkLoop.simps)
    using lt advance nx sub by (simp add: Let_def windowChunk_def del: of_nat_mult)
  also note ih
  finally show ?case using k by (simp add: upt_conv_Cons)
qed

lemma chunkWith_windows:
  assumes "overlap config < csize config"
  shows "chunkWith config ct txt src
         = map (windowChunk config ct txt src) [0..<windowCount config txt]"
  using chunkLoop_windows [OF assms, of ct "txt" src 0 "[]"] by (simp add: chunkWith_def)

lemma chunkWith_stalled:
  assumes "csize config \<le> overlap config" and "txt \<noteq> []"
  shows "chunkWith config ct txt src =
         [\<lparr>source = src, chunkIndex = 0, text' = take (csize config) txt, metadata = Some ct\<rparr>]"
  unfolding chunkWith_def
  apply (subst chunkLoop.simps)
  using assms by (simp add: Let_def substring_def min_def max_def)

lemma chunkWith_empty: "chunkWith config ct [] src = []"
  unfolding chunkWith_def by (subst chunkLoop.simps) simp

lemma windowChunk_length: "length (text' (windowChunk config ct txt src i)) \<le> csize config"
  by (simp add: windowChunk_def span_def Let_def)

lemma chunk_configs_advance:
  "overlap NARRATIVE_CHUNK_CONFIG < csize NARRATIVE_CHUNK_CONFIG"
  "overlap ATOMIC_CHUNK_CONFIG < csize ATOMIC_CHUNK_CONFIG"
  by (simp_all add: NARRATIVE_CHUNK_CONFIG_def ATOMIC_CHUNK_CONFIG_def)

lemma intelligentChunking_windows:
  "intelligentChunking txt src =
     (let ct = analyzeContentType txt;
          config = (if ct = narrative then NARRATIVE_CHUNK_CONFIG else ATOMIC_CHUNK_CONFIG)
      in (map (windowChunk config ct txt src) [0..<windowCount config txt], ct))"
  by (simp add: intelligentChunking_def Let_def chunkWith_windows chunk_configs_advance)

text \<open>
  Claim C4. With a window size above the overlap, the chunks are the windows number
  0, 1, 2, ... of the text, in this order: window \<open>i\<close> has \<open>chunkIndex = i\<close>, starts at
  \<open>i * (size - overlap)\<close> and ends at \<open>offset + size\<close> or at the end of the text, and
  there is one window for every such offset that lies inside the text. No chunk is
  longer than the window size; the empty text has no chunk; and \<open>AAAA\<close> with size 3 and
  overlap 1 gives \<open>AAA\<close> (index 0) and \<open>AA\<close> (index 1), whose last chunk is shorter
  than the size. \<open>intelligentChunking\<close> is this chunker at the configuration of the
  content type it has found.
\<close>

theorem chunker_sliding_window:
  assumes "overlap config < csize config"
  shows "chunkWith config ct txt src
           = map (windowChunk config ct txt src) [0..<windowCount config txt]
         \<and> (\<forall>i. (i < windowCount config txt)
                = (i * (csize config - overlap config) < length txt))
         \<and> (\<forall>i. length (text' (windowChunk config ct txt src i)) \<le> csize config)
         \<and> chunkWith config ct [] src = []
         \<and> chunkWith \<lparr>csize = 3, overlap = 1\<rparr> ct ''AAAA'' src
             = [\<lparr>source = src, chunkIndex = 0, text' = ''AAA'', metadata = Some ct\<rparr>,
                \<lparr>source = src, chunkIndex = 1, text' = ''AA'', metadata = Some ct\<rparr>]
         \<and> intelligentChunking txt src
             = (let t = analyzeContentType txt;
                    c = (if t = narrative then NARRATIVE_CHUNK_CONFIG else ATOMIC_CHUNK_CONFIG)
                in (map (windowChunk c t txt src) [0..<windowCount c txt], t))"
proof -
  have "chunkWith \<lparr>csize = 3, overlap = 1\<rparr> ct ''AAAA'' src
             = [\<lparr>source = src, chunkIndex = 0, text' = ''AAA'', metadata = Some ct\<rparr>,
                \<lparr>source = src, chunkIndex = 1, text' = ''AA'', metadata = Some ct\<rparr>]"
    by (simp add: chunkWith_def chunkLoop.simps substring_def Let_def)
  then show ?thesis
    using chunkWith_windows [OF assms] windowCount_iff [OF assms] windowChunk_length
      chunkWith_empty intelligentChunking_windows
    by simp
qed

theorem chunker_sliding_window_witness:
  "overlap \<lparr>csize = 3, overlap = 1\<rparr> < csize \<lparr>csize = 3, overlap = 1\<rparr>
   \<and> chunkWith \<lparr>csize = 3, overlap = 1\<rparr> atomic ''AAAA'' ''a.txt''
       = map (windowChunk \<lparr>csize = 3, overlap = 1\<rparr> atomic ''AAAA'' ''a.txt'') [0..<2]
   \<and> windowCount \<lparr>csize = 3, overlap = 1\<rparr> ''AAAA'' = 2"
proof -
  have h: "overlap \<lparr>csize = 3, overlap = 1\<rparr> < csize \<lparr>csize = 3, overlap = 1\<rparr>"
    by simp
  have n: "windowCount \<lparr>csize = 3, overlap = 1\<rparr> ''AAAA'' = 2"
    by (simp add: windowCount_def)
  show ?thesis
    using chunker_sliding_window [OF h, of atomic "''AAAA''" "''a.txt''"] h n by simp
qed

text \<open>
  Claim C7, as the code has it. When the window cannot advance (size at most the
  overlap) and the text is not empty, the chunker neither loops nor reports an error:
  its guard leaves the loop after the first window, and the result is the single chunk
  of index 0 that holds the first \<open>size\<close> characters of the text (all of it, if it is
  shorter).
\<close>

theorem chunker_stalled_window:
  assumes "csize config \<le> overlap config" and "txt \<noteq> []"
  shows "chunkWith config ct txt src =
         [\<lparr>source = src, chunkIndex = 0, text' = take (csize config) txt, metadata = Some ct\<rparr>]"
  using assms by (rule chunkWith_stalled)

theorem chunker_stalled_window_witness:
  "csize \<lparr>csize = 2, overlap = 5\<rparr> \<le> overlap \<lparr>csize = 2, overlap = 5\<rparr>
   \<and> ''abcd'' \<noteq> []
   \<and> chunkWith \<lparr>csize = 2, overlap = 5\<rparr> narrative ''abcd'' ''a.txt''
       = [\<lparr>source = ''a.txt'', chunkIndex = 0, text' = ''ab'', metadata = Some narrative\<rparr>]"
proof -
  have h1: "csize \<lparr>csize = 2, overlap = 5\<rparr> \<le> overlap \<lparr>csize = 2, overlap = 5\<rparr>"
    by simp
  have h2: "''abcd'' \<noteq> []"
    by simp
  show ?thesis
    using chunker_stalled_window [OF h1 h2, of narrative "''a.txt''"] h1 by simp
qed

text \<open>
  Claim C7, as the specification states it, fails: with size 2 and overlap 2 the text
  \<open>abcd\<close> is not refused. The chunker returns one chunk, \<open>ab\<close>, and leaves \<open>cd\<close> out.
\<close>

theorem chunker_no_configuration_error:
  "chunkWith \<lparr>csize = 2, overlap = 2\<rparr> narrative ''abcd'' ''a.txt''
     = [\<lparr>source = ''a.txt'', chunkIndex = 0, text' = ''ab'', metadata = Some narrative\<rparr>]"
  by (simp add: chunkWith_def chunkLoop.simps substring_def Let_def)

lemma span_join:
  assumes "overlap config < csize config" and "a < length txt"
  shows "take (min (a + overlap config) (length txt)) txt
         @ drop (overlap config) (span txt a (min (a + csize config) (length txt)))
         = take (min (a + csize config) (length txt)) txt"
proof (cases "a + overlap config \<le> length txt")
  case True
  let ?E = "min (a + csize config) (length txt)"
  have E: "a + overlap config \<le> ?E" using True assms by simp
  have "drop (overlap config) (span txt a ?E)
        = take (?E - (a + overlap config)) (drop (a + overlap config) txt)"
    by (simp add: span_def drop_take add.commute)
  moreover have "take (a + overlap config + (?E - (a + overlap config))) txt
        = take (a + overlap config) txt
          @ take (?E - (a + overlap config)) (drop (a + overlap config) txt)"
    by (rule take_add)
  moreover have "a + overlap config + (?E - (a + overlap config)) = ?E" using E by simp
  ultimately show ?thesis using True by (simp add: min_absorb1)
next
  case False
  then show ?thesis using assms by (simp add: span_def min_def)
qed

lemma rebuild_prefix:
  assumes "overlap config < csize config" and "Suc m \<le> windowCount config txt"
  shows "text' (windowChunk config ct txt src 0)
         @ concat (map (\<lambda>i. drop (overlap config) (text' (windowChunk config ct txt src i)))
                       [1..<Suc m])
         = take (min (m * (csize config - overlap config) + csize config) (length txt)) txt"
  using assms(2)
proof (induction m)
  case 0
  show ?case by (simp add: windowChunk_def span_def)
next
  case (Suc m)
  let ?d = "csize config - overlap config"
  let ?w = "windowChunk config ct txt src"
  let ?f = "\<lambda>i. drop (overlap config) (text' (?w i))"
  have lt: "Suc m * ?d < length txt"
    using Suc.prems windowCount_iff [OF assms(1), of "Suc m" "txt"] by simp
  have eq: "m * ?d + csize config = Suc m * ?d + overlap config"
    using assms(1) by simp
  have ih: "text' (?w 0) @ concat (map ?f [1..<Suc m])
            = take (min (m * ?d + csize config) (length txt)) txt"
    by (rule Suc.IH) (use Suc.prems in simp)
  have split: "[1..<Suc (Suc m)] = [1..<Suc m] @ [Suc m]"
    by simp
  have tw: "?f (Suc m)
            = drop (overlap config)
                (span txt (Suc m * ?d) (min (Suc m * ?d + csize config) (length txt)))"
    by (simp add: windowChunk_def Let_def)
  have "text' (?w 0) @ concat (map ?f [1..<Suc (Suc m)])
        = (text' (?w 0) @ concat (map ?f [1..<Suc m])) @ ?f (Suc m)"
    by (simp only: split map_append concat_append append_assoc list.map concat.simps append_Nil2)
  also have "\<dots> = take (min (Suc m * ?d + overlap config) (length txt)) txt
          @ drop (overlap config)
              (span txt (Suc m * ?d) (min (Suc m * ?d + csize config) (length txt)))"
    by (simp only: ih tw eq)
  also have "\<dots> = take (min (Suc m * ?d + csize config) (length txt)) txt"
    by (rule span_join [OF assms(1) lt])
  finally show ?case .
qed

lemma removeOverlap_chunkWith:
  assumes "overlap config < csize config"
  shows "removeOverlap (overlap config) (chunkWith config ct txt src) = txt"
proof (cases "windowCount config txt")
  case 0
  then have "\<not> 0 * (csize config - overlap config) < length txt"
    using windowCount_iff [OF assms, of 0 "txt"] by simp
  then have "txt = []" by simp
  then show ?thesis using 0 by (simp add: chunkWith_windows [OF assms] removeOverlap_def)
next
  case (Suc m)
  let ?d = "csize config - overlap config"
  have "\<not> Suc m * ?d < length txt"
    using windowCount_iff [OF assms, of "Suc m" "txt"] Suc by simp
  then have ge: "length txt \<le> m * ?d + csize config" using assms by simp
  have "removeOverlap (overlap config) (chunkWith config ct txt src)
        = text' (windowChunk config ct txt src 0)
         @ concat (map (\<lambda>i. drop (overlap config) (text' (windowChunk config ct txt src i)))
                       [1..<Suc m])"
    by (simp add: chunkWith_windows [OF assms] Suc removeOverlap_def upt_conv_Cons comp_def
        del: upt_Suc)
  also have "\<dots> = take (min (m * ?d + csize config) (length txt)) txt"
    using Suc by (intro rebuild_prefix [OF assms]) simp
  also have "\<dots> = txt" using ge by (simp add: min_absorb2)
  finally show ?thesis .
qed

text \<open>
  Claim C8, as the code has it. With \<open>size > overlap > 0\<close>, the text is recovered
  from its chunks when the overlap is removed from every chunk after the first, the
  final one included: the first chunk, followed by every later chunk without its first
  \<open>overlap\<close> characters (a chunk no longer than the overlap adds nothing), is the
  original text, with nothing missing and nothing added. This holds for the chunks that
  \<open>intelligentChunking\<close> returns, with the overlap of the configuration it has chosen.
\<close>

theorem chunker_round_trip:
  assumes "0 < overlap config" and "overlap config < csize config"
  shows "removeOverlap (overlap config) (chunkWith config ct txt src) = txt
         \<and> removeOverlap
              (overlap (if analyzeContentType txt = narrative then NARRATIVE_CHUNK_CONFIG
                        else ATOMIC_CHUNK_CONFIG))
              (fst (intelligentChunking txt src)) = txt"
  using removeOverlap_chunkWith [OF assms(2)]
  by (simp add: intelligentChunking_def Let_def removeOverlap_chunkWith chunk_configs_advance)

theorem chunker_round_trip_witness:
  "0 < overlap \<lparr>csize = 4, overlap = 2\<rparr>
   \<and> overlap \<lparr>csize = 4, overlap = 2\<rparr> < csize \<lparr>csize = 4, overlap = 2\<rparr>
   \<and> chunkWith \<lparr>csize = 4, overlap = 2\<rparr> narrative ''abcde'' ''a.txt''
       = [\<lparr>source = ''a.txt'', chunkIndex = 0, text' = ''abcd'', metadata = Some narrative\<rparr>,
          \<lparr>source = ''a.txt'', chunkIndex = 1, text' = ''cde'', metadata = Some narrative\<rparr>,
          \<lparr>source = ''a.txt'', chunkIndex = 2, text' = ''e'', metadata = Some narrative\<rparr>]
   \<and> removeOverlap 2 (chunkWith \<lparr>csize = 4, overlap = 2\<rparr> narrative ''abcde'' ''a.txt'')
       = ''abcde''"
proof -
  have h1: "0 < overlap \<lparr>csize = 4, overlap = 2\<rparr>"
    by simp
  have h2: "overlap \<lparr>csize = 4, overlap = 2\<rparr> < csize \<lparr>csize = 4, overlap = 2\<rparr>"
    by simp
  have c: "chunkWith \<lparr>csize = 4, overlap = 2\<rparr> narrative ''abcde'' ''a.txt''
       = [\<lparr>source = ''a.txt'', chunkIndex = 0, text' = ''abcd'', metadata = Some narrative\<rparr>,
          \<lparr>source = ''a.txt'', chunkIndex = 1, text' = ''cde'', metadata = Some narrative\<rparr>,
          \<lparr>source = ''a.txt'', chunkIndex = 2, text' = ''e'', metadata = Some narrative\<rparr>]"
    by (simp add: chunkWith_def chunkLoop.simps substring_def Let_def)
  show ?thesis
    using chunker_round_trip [OF h1 h2, of narrative "''abcde''" "''a.txt''"] h1 h2 c
    by simp
qed

text \<open>
  Claim C8, as the specification states it, fails: when the final chunk is kept in
  full, its overlap with the chunk before it is repeated. \<open>AAAA\<close> with size 3 and
  overlap 1 has the chunks \<open>AAA\<close> and \<open>AA\<close>, which give \<open>AAAAA\<close>.
\<close>

theorem chunker_round_trip_keeping_final:
  "removeOverlapKeepingFinal 1
     (chunkWith \<lparr>csize = 3, overlap = 1\<rparr> narrative ''AAAA'' ''a.txt'') = ''AAAAA''"
  by (simp add: removeOverlapKeepingFinal_def chunkWith_def chunkLoop.simps substring_def
      Let_def)

section \<open>Map and Set\<close>

lemma Map_get_Nil: "Map_get [] t = None"
  by (simp add: Map_get_def)

lemma Map_get_Cons: "Map_get ((k, v) # m) t = (if t = k then Some v else Map_get m t)"
  by (simp add: Map_get_def)

lemma wfMap_Nil: "wfMap []"
  by (simp add: wfMap_def)

lemma Map_get_None_iff: "(Map_get m k = None) = (k \<notin> fst ` set m)"
  by (simp add: Map_get_def map_of_eq_None_iff)

lemma map_of_Map_set: "map_of (Map_set m k v) = (map_of m)(k \<mapsto> v)"
  by (induction m k v rule: Map_set.induct) (auto simp: fun_eq_iff)

lemma keys_Map_set:
  "map fst (Map_set m k v) = (if k \<in> fst ` set m then map fst m else map fst m @ [k])"
  by (induction m k v rule: Map_set.induct) (auto simp: image_iff)

lemma wfMap_Map_set: "wfMap m \<Longrightarrow> wfMap (Map_set m k v)"
  by (simp add: wfMap_def keys_Map_set)

lemma Map_get_Map_set: "Map_get (Map_set m k v) t = (if t = k then Some v else Map_get m t)"
  by (simp add: Map_get_def map_of_Map_set)

lemma set_foldl_Set_add: "set (foldl Set_add s xs) = set s \<union> set xs"
  by (induction xs arbitrary: s) (auto simp: Set_add_def)

lemma distinct_foldl_Set_add: "distinct s \<Longrightarrow> distinct (foldl Set_add s xs)"
  by (induction xs arbitrary: s) (auto simp: Set_add_def)

lemma set_new_Set: "set (new_Set xs) = set xs"
  by (simp add: new_Set_def set_foldl_Set_add)

lemma distinct_new_Set: "distinct (new_Set xs)"
  by (simp add: new_Set_def distinct_foldl_Set_add)

lemma Map_get_increment:
  "Map_get (increment m k) t = (if t = k then Some (getOrZero m k + 1) else Map_get m t)"
  by (simp add: increment_def Map_get_Map_set)

lemma Map_get_foldl_increment:
  "Map_get (foldl increment m xs) t =
     (if t \<in> set xs then Some (getOrZero m t + count_list xs t) else Map_get m t)"
proof (induction xs arbitrary: m)
  case Nil
  show ?case by simp
next
  case (Cons x xs)
  show ?case
    by (simp add: Cons.IH Map_get_increment getOrZero_def)
qed

lemma wfMap_foldl_increment: "wfMap m \<Longrightarrow> wfMap (foldl increment m xs)"
  by (induction xs arbitrary: m) (simp_all add: increment_def wfMap_Map_set)

lemma count_list_distinct: "distinct xs \<Longrightarrow> count_list xs t = (if t \<in> set xs then 1 else 0)"
  by (induction xs) auto

text \<open>
  A \<open>forEach\<close> over a \<open>Map\<close> that sets, for each entry, its key in a second \<open>Map\<close>:
  the second \<open>Map\<close> receives the keys in the same order.
\<close>

lemma Map_get_foldl_set:
  assumes "wfMap xs"
  shows "Map_get (foldl (\<lambda>m (k, v). Map_set m k (f k v)) acc xs) t =
         (case Map_get xs t of Some v \<Rightarrow> Some (f t v) | None \<Rightarrow> Map_get acc t)"
  using assms
proof (induction xs arbitrary: acc)
  case Nil
  show ?case by (simp add: Map_get_Nil)
next
  case (Cons p xs)
  obtain k v where p: "p = (k, v)" by (cases p)
  have wf: "wfMap xs" and k: "k \<notin> fst ` set xs"
    using Cons.prems by (simp_all add: wfMap_def p)
  have none: "Map_get xs k = None"
    using k by (simp add: Map_get_None_iff)
  show ?case
    using none
    by (simp add: Cons.IH [OF wf] p Map_get_Map_set Map_get_Cons split: option.splits)
qed

lemma foldl_set_entries:
  assumes "wfMap xs"
  shows "foldl (\<lambda>m (k, v). Map_set m k (f k v)) [] xs = map (\<lambda>(k, v). (k, f k v)) xs"
proof -
  have "fst ` set acc \<inter> fst ` set xs = {} \<Longrightarrow> wfMap xs \<Longrightarrow>
        foldl (\<lambda>m (k, v). Map_set m k (f k v)) acc xs = acc @ map (\<lambda>(k, v). (k, f k v)) xs"
    for acc
  proof (induction xs arbitrary: acc)
    case Nil
    show ?case by simp
  next
    case (Cons p xs)
    obtain k v where p: "p = (k, v)" by (cases p)
    have fresh: "k \<notin> fst ` set acc" using Cons.prems(1) by (auto simp: p)
    have app: "Map_set acc k (f k v) = acc @ [(k, f k v)]"
      using fresh by (induction acc) (auto)
    have "fst ` set (acc @ [(k, f k v)]) \<inter> fst ` set xs = {}"
      using Cons.prems by (auto simp: p wfMap_def)
    moreover have "wfMap xs" using Cons.prems(2) by (simp add: wfMap_def)
    ultimately show ?case
      using Cons.IH [of "acc @ [(k, f k v)]"] by (simp add: p app)
  qed
  from this [of "[]"] assms show ?thesis by simp
qed

section \<open>The IDF table\<close>

lemma Map_get_countDocument:
  "Map_get (countDocument m c) t =
     (if t \<in> set (tokenize (text' c)) then Some (getOrZero m t + 1) else Map_get m t)"
  by (simp add: countDocument_def Let_def Map_get_foldl_increment set_new_Set
      count_list_distinct distinct_new_Set)

lemma Map_get_foldl_countDocument:
  "Map_get (foldl countDocument m cs) t =
     (if 0 < documentFrequency cs t then Some (getOrZero m t + documentFrequency cs t)
      else Map_get m t)"
proof (induction cs arbitrary: m)
  case Nil
  show ?case by (simp add: documentFrequency_def)
next
  case (Cons c cs)
  show ?case
    by (simp add: Cons.IH Map_get_countDocument documentFrequency_def getOrZero_def)
qed

lemma wfMap_foldl_countDocument: "wfMap m \<Longrightarrow> wfMap (foldl countDocument m cs)"
  by (induction cs arbitrary: m) (simp_all add: countDocument_def Let_def wfMap_foldl_increment)

lemma Map_get_docFrequencyOf:
  "Map_get (docFrequencyOf cs) t =
     (if 0 < documentFrequency cs t then Some (documentFrequency cs t) else None)"
  by (simp add: docFrequencyOf_def Map_get_foldl_countDocument getOrZero_def Map_get_Nil)

lemma wfMap_docFrequencyOf: "wfMap (docFrequencyOf cs)"
  by (simp add: docFrequencyOf_def wfMap_foldl_countDocument wfMap_Nil)

lemma documentFrequency_pos_iff:
  "(0 < documentFrequency cs t) = (t \<in> (\<Union>c \<in> set cs. set (tokenize (text' c))))"
  by (induction cs) (auto simp: documentFrequency_def)

lemma Map_get_calculateIdf:
  "Map_get (calculateIdf cs) t =
     (if 0 < documentFrequency cs t
      then Some (ln ((real (length cs) + 1) / (real (documentFrequency cs t) + 1)) + 1)
      else None)"
proof (cases "cs = []")
  case True
  then show ?thesis by (simp add: calculateIdf_def documentFrequency_def Map_get_Nil)
next
  case False
  have "Map_get (calculateIdf cs) t =
        (case Map_get (docFrequencyOf cs) t of
           Some df \<Rightarrow> Some (ln ((real (length cs) + 1) / (real df + 1)) + 1)
         | None \<Rightarrow> None)"
    using False
      Map_get_foldl_set [OF wfMap_docFrequencyOf,
        of "\<lambda>k df. ln ((real (length cs) + 1) / (real df + 1)) + 1" "[]" cs t]
    by (simp add: calculateIdf_def Let_def Map_get_Nil split: option.splits)
  then show ?thesis by (simp add: Map_get_docFrequencyOf)
qed

lemma keys_calculateIdf:
  "fst ` set (calculateIdf cs) = (\<Union>c \<in> set cs. set (tokenize (text' c)))"
proof -
  have "(t \<in> fst ` set (calculateIdf cs)) = (t \<in> (\<Union>c \<in> set cs. set (tokenize (text' c))))"
    for t
    using Map_get_None_iff [of "calculateIdf cs" t] documentFrequency_pos_iff [of cs t]
    by (simp add: Map_get_calculateIdf split: if_splits)
  then show ?thesis by blast
qed

lemma wfMap_calculateIdf: "wfMap (calculateIdf cs)"
proof (cases "cs = []")
  case True
  then show ?thesis by (simp add: calculateIdf_def wfMap_Nil)
next
  case False
  have "calculateIdf cs
        = map (\<lambda>(k, df). (k, ln ((real (length cs) + 1) / (real df + 1)) + 1)) (docFrequencyOf cs)"
    using False
      foldl_set_entries [OF wfMap_docFrequencyOf,
        of "\<lambda>k df. ln ((real (length cs) + 1) / (real df + 1)) + 1" cs]
    by (simp add: calculateIdf_def Let_def)
  then have "map fst (calculateIdf cs) = map fst (docFrequencyOf cs)"
    by (simp add: comp_def split_beta)
  then show ?thesis using wfMap_docFrequencyOf [of cs] by (simp add: wfMap_def)
qed

lemma tokenize_cat_dog: "tokenize ''cat dog'' = [''cat'', ''dog'']"
  by code_simp

lemma tokenize_dog_bird: "tokenize ''dog bird'' = [''dog'', ''bird'']"
  by code_simp

lemma tokenize_cat: "tokenize ''cat'' = [''cat'']"
  by code_simp

text \<open>
  Claim C2. The table that \<open>calculateIdf\<close> returns has an entry for a term exactly
  when the term is a token of at least one chunk, its keys are pairwise distinct, and
  the entry is \<open>ln ((N + 1) / (df + 1)) + 1\<close>, where \<open>N\<close> is the number of chunks and
  \<open>df\<close> the number of chunks among whose tokens the term is. No chunks give the empty
  table. For the two chunks \<open>cat dog\<close> and \<open>dog bird\<close> (whatever their other fields),
  \<open>dog\<close> has 1 and \<open>cat\<close> and \<open>bird\<close> have \<open>ln (3 / 2) + 1\<close>.
\<close>

theorem calculateIdf_table:
  "Map_get (calculateIdf cs) t =
     (if t \<in> (\<Union>c \<in> set cs. set (tokenize (text' c)))
      then Some (ln ((real (length cs) + 1) / (real (documentFrequency cs t) + 1)) + 1)
      else None)
   \<and> fst ` set (calculateIdf cs) = (\<Union>c \<in> set cs. set (tokenize (text' c)))
   \<and> wfMap (calculateIdf cs)
   \<and> calculateIdf [] = []
   \<and> Map_get (calculateIdf
        [\<lparr>source = sA, chunkIndex = iA, text' = ''cat dog'', metadata = mA\<rparr>,
         \<lparr>source = sB, chunkIndex = iB, text' = ''dog bird'', metadata = mB\<rparr>]) ''dog''
       = Some 1
   \<and> Map_get (calculateIdf
        [\<lparr>source = sA, chunkIndex = iA, text' = ''cat dog'', metadata = mA\<rparr>,
         \<lparr>source = sB, chunkIndex = iB, text' = ''dog bird'', metadata = mB\<rparr>]) ''cat''
       = Some (ln (3 / 2) + 1)
   \<and> Map_get (calculateIdf
        [\<lparr>source = sA, chunkIndex = iA, text' = ''cat dog'', metadata = mA\<rparr>,
         \<lparr>source = sB, chunkIndex = iB, text' = ''dog bird'', metadata = mB\<rparr>]) ''bird''
       = Some (ln (3 / 2) + 1)"
proof -
  have general: "Map_get (calculateIdf cs) t =
     (if t \<in> (\<Union>c \<in> set cs. set (tokenize (text' c)))
      then Some (ln ((real (length cs) + 1) / (real (documentFrequency cs t) + 1)) + 1)
      else None)"
    by (simp only: Map_get_calculateIdf documentFrequency_pos_iff)
  have empty: "calculateIdf [] = []"
    by (simp add: calculateIdf_def)
  have example:
    "Map_get (calculateIdf
        [\<lparr>source = sA, chunkIndex = iA, text' = ''cat dog'', metadata = mA\<rparr>,
         \<lparr>source = sB, chunkIndex = iB, text' = ''dog bird'', metadata = mB\<rparr>]) ''dog''
       = Some 1"
    "Map_get (calculateIdf
        [\<lparr>source = sA, chunkIndex = iA, text' = ''cat dog'', metadata = mA\<rparr>,
         \<lparr>source = sB, chunkIndex = iB, text' = ''dog bird'', metadata = mB\<rparr>]) ''cat''
       = Some (ln (3 / 2) + 1)"
    "Map_get (calculateIdf
        [\<lparr>source = sA, chunkIndex = iA, text' = ''cat dog'', metadata = mA\<rparr>,
         \<lparr>source = sB, chunkIndex = iB, text' = ''dog bird'', metadata = mB\<rparr>]) ''bird''
       = Some (ln (3 / 2) + 1)"
    by (simp_all add: Map_get_calculateIdf documentFrequency_def
        tokenize_cat_dog tokenize_dog_bird)
  show ?thesis
    using general keys_calculateIdf wfMap_calculateIdf empty example by blast
qed

section \<open>Vectorization\<close>

lemma Map_get_vectorizeWithTfidf:
  "Map_get (vectorizeWithTfidf txt idf) t =
     (if t \<in> set (tokenize txt)
      then Some (real (count_list (tokenize txt) t) / real (length (tokenize txt))
                 * getOrZero idf t)
      else None)"
proof (cases "tokenize txt = []")
  case True
  then show ?thesis by (simp add: vectorizeWithTfidf_def Map_get_Nil)
next
  case False
  have wf: "wfMap (foldl increment [] (tokenize txt))"
    by (simp add: wfMap_foldl_increment wfMap_Nil)
  show ?thesis
    using False
      Map_get_foldl_set [OF wf,
        of "\<lambda>k tf. real tf / real (length (tokenize txt)) * getOrZero idf k" "[]" t]
    by (simp add: vectorizeWithTfidf_def Let_def Map_get_foldl_increment getOrZero_def
        Map_get_Nil)
qed

text \<open>
  Claim C6, as the code has it. The vector has a key for exactly the tokens of the
  text. The weight of a token is its share of the tokens times its IDF, the IDF of a
  term that the table lacks being 0: such a term keeps its key, with the weight 0.
\<close>

theorem vectorizeWithTfidf_keys:
  "Map_get (vectorizeWithTfidf txt idf) t =
     (if t \<in> set (tokenize txt)
      then Some (real (count_list (tokenize txt) t) / real (length (tokenize txt))
                 * getOrZero idf t)
      else None)
   \<and> (t \<in> set (tokenize txt) \<and> Map_get idf t = None
        \<longrightarrow> Map_get (vectorizeWithTfidf txt idf) t = Some 0)"
  by (simp add: Map_get_vectorizeWithTfidf getOrZero_def)

theorem vectorizeWithTfidf_keys_witness:
  "''cat'' \<in> set (tokenize ''cat dog'') \<and> Map_get [(''dog'', 2)] ''cat'' = None
   \<and> Map_get (vectorizeWithTfidf ''cat dog'' [(''dog'', 2)]) ''cat'' = Some 0
   \<and> Map_get (vectorizeWithTfidf ''cat dog'' [(''dog'', 2)]) ''dog'' = Some 1"
  using vectorizeWithTfidf_keys [of "''cat dog''" "[(''dog'', 2)]" "''cat''"]
    vectorizeWithTfidf_keys [of "''cat dog''" "[(''dog'', 2)]" "''dog''"]
  by (simp add: tokenize_cat_dog Map_get_Cons Map_get_Nil getOrZero_def)

text \<open>
  Claim C6, as the specification states it, fails: for the text \<open>cat\<close> and the empty
  IDF table, the vector has the key \<open>cat\<close>, with the weight 0.
\<close>

theorem vectorizeWithTfidf_zero_weight_key:
  "vectorizeWithTfidf ''cat'' [] = [(''cat'', 0)]"
  by (simp add: vectorizeWithTfidf_def tokenize_cat increment_def getOrZero_def Map_get_def
      Let_def)

section \<open>Cosine similarity in exact arithmetic\<close>

lemma foldl_plus_sum_list:
  fixes a :: real
  shows "foldl (\<lambda>acc x. acc + f x) a xs = a + sum_list (map f xs)"
  by (induction xs arbitrary: a) simp_all

lemma dotProductOf_sum:
  "dotProductOf a b = (\<Sum>k \<in> fst ` set a \<union> fst ` set b. getOrZero a k * getOrZero b k)"
proof -
  let ?ks = "new_Set (map fst a @ map fst b)"
  have "dotProductOf a b = sum_list (map (\<lambda>k. getOrZero a k * getOrZero b k) ?ks)"
    by (simp add: dotProductOf_def Let_def foldl_plus_sum_list)
  also have "\<dots> = (\<Sum>k \<in> set ?ks. getOrZero a k * getOrZero b k)"
    by (rule sum_list_distinct_conv_sum_set) (rule distinct_new_Set)
  also have "set ?ks = fst ` set a \<union> fst ` set b"
    by (simp add: set_new_Set)
  finally show ?thesis .
qed

lemma getOrZero_Cons:
  "getOrZero ((k, v) # m) t = (if t = k then v else getOrZero m t)"
  by (simp add: getOrZero_def Map_get_Cons)

lemma getOrZero_absent: "t \<notin> fst ` set m \<Longrightarrow> getOrZero m t = 0"
  by (simp add: getOrZero_def Map_get_None_iff [symmetric])

lemma sum_squares_keys:
  fixes a :: "(string \<times> real) list"
  assumes "wfMap a"
  shows "sum_list (map (\<lambda>p. snd p * snd p) a) = (\<Sum>k \<in> fst ` set a. (getOrZero a k)\<^sup>2)"
  using assms
proof (induction a)
  case Nil
  show ?case by simp
next
  case (Cons p a)
  obtain k v where p: "p = (k, v)" by (cases p)
  have wf: "wfMap a" and k: "k \<notin> fst ` set a"
    using Cons.prems by (simp_all add: wfMap_def p)
  have same: "(\<Sum>t \<in> fst ` set a. (getOrZero ((k, v) # a) t)\<^sup>2)
              = (\<Sum>t \<in> fst ` set a. (getOrZero a t)\<^sup>2)"
    using k by (intro sum.cong) (auto simp: getOrZero_Cons)
  have "(\<Sum>t \<in> fst ` set (p # a). (getOrZero (p # a) t)\<^sup>2)
        = (getOrZero ((k, v) # a) k)\<^sup>2 + (\<Sum>t \<in> fst ` set a. (getOrZero ((k, v) # a) t)\<^sup>2)"
    using k by (simp add: p)
  also have "\<dots> = v * v + (\<Sum>t \<in> fst ` set a. (getOrZero a t)\<^sup>2)"
    unfolding same by (simp add: getOrZero_Cons power2_eq_square)
  finally show ?case using Cons.IH [OF wf] by (simp add: p)
qed

lemma magnitudeOf_sum:
  assumes "wfMap a"
  shows "magnitudeOf a = sqrt (\<Sum>k \<in> fst ` set a. (getOrZero a k)\<^sup>2)"
  by (simp add: magnitudeOf_def foldl_plus_sum_list comp_def sum_squares_keys [OF assms])

lemma magnitudeOf_sum_superset:
  assumes "wfMap a" and "finite K" and "fst ` set a \<subseteq> K"
  shows "magnitudeOf a = sqrt (\<Sum>k \<in> K. (getOrZero a k)\<^sup>2)"
proof -
  have "(\<Sum>k \<in> fst ` set a. (getOrZero a k)\<^sup>2) = (\<Sum>k \<in> K. (getOrZero a k)\<^sup>2)"
    using assms(2,3) by (intro sum.mono_neutral_left) (auto simp: getOrZero_absent)
  then show ?thesis by (simp add: magnitudeOf_sum [OF assms(1)])
qed

text \<open>
  The bound on the dot product, from \<open>2 u v \<le> u\<^sup>2 + v\<^sup>2\<close> applied to the two
  vectors scaled to length one.
\<close>

lemma product_le_weighted_squares:
  fixes x y A B :: real
  assumes "0 < A" and "0 < B"
  shows "x * y \<le> B / (2 * A) * x\<^sup>2 + A / (2 * B) * y\<^sup>2"
proof -
  have "0 \<le> (B * x - A * y)\<^sup>2" by simp
  then have "2 * A * B * (x * y) \<le> B\<^sup>2 * x\<^sup>2 + A\<^sup>2 * y\<^sup>2"
    by (simp add: power2_diff power_mult_distrib algebra_simps)
  then have "(2 * A * B * (x * y)) / (2 * A * B) \<le> (B\<^sup>2 * x\<^sup>2 + A\<^sup>2 * y\<^sup>2) / (2 * A * B)"
    using assms by (intro divide_right_mono) simp_all
  moreover have "(2 * A * B * (x * y)) / (2 * A * B) = x * y"
    using assms by simp
  moreover have "(B\<^sup>2 * x\<^sup>2 + A\<^sup>2 * y\<^sup>2) / (2 * A * B)
                 = B / (2 * A) * x\<^sup>2 + A / (2 * B) * y\<^sup>2"
    using assms by (simp add: field_simps power2_eq_square)
  ultimately show ?thesis by simp
qed

lemma sum_products_le_magnitudes:
  fixes x y :: "'a \<Rightarrow> real"
  assumes "finite K"
  shows "(\<Sum>k \<in> K. x k * y k) \<le> sqrt (\<Sum>k \<in> K. (x k)\<^sup>2) * sqrt (\<Sum>k \<in> K. (y k)\<^sup>2)"
proof -
  let ?X = "\<Sum>k \<in> K. (x k)\<^sup>2" and ?Y = "\<Sum>k \<in> K. (y k)\<^sup>2"
  have X0: "0 \<le> ?X" and Y0: "0 \<le> ?Y" by (simp_all add: sum_nonneg)
  show ?thesis
  proof (cases "?X = 0 \<or> ?Y = 0")
    case True
    then have "x k * y k = 0" if "k \<in> K" for k
      using assms that by (auto simp: sum_nonneg_eq_0_iff)
    then have "(\<Sum>k \<in> K. x k * y k) = 0" by (rule sum.neutral [OF ballI])
    then show ?thesis using X0 Y0 by simp
  next
    case False
    define A where "A = sqrt ?X"
    define B where "B = sqrt ?Y"
    have A: "0 < A" and B: "0 < B" using False X0 Y0 by (simp_all add: A_def B_def)
    have A2: "A\<^sup>2 = ?X" and B2: "B\<^sup>2 = ?Y" using X0 Y0 by (simp_all add: A_def B_def)
    have "(\<Sum>k \<in> K. x k * y k) \<le> (\<Sum>k \<in> K. B / (2 * A) * (x k)\<^sup>2 + A / (2 * B) * (y k)\<^sup>2)"
      by (intro sum_mono product_le_weighted_squares A B)
    also have "\<dots> = B / (2 * A) * ?X + A / (2 * B) * ?Y"
      by (simp add: sum.distrib sum_distrib_left)
    also have "\<dots> = B / (2 * A) * A\<^sup>2 + A / (2 * B) * B\<^sup>2"
      by (simp only: A2 B2)
    also have "\<dots> = A * B"
      using A B by (simp add: field_simps power2_eq_square)
    finally show ?thesis by (simp add: A_def B_def)
  qed
qed

lemma dotProductOf_le_magnitudes:
  assumes "wfMap a" and "wfMap b"
  shows "dotProductOf a b \<le> magnitudeOf a * magnitudeOf b"
proof -
  let ?K = "fst ` set a \<union> fst ` set b"
  have fin: "finite ?K" by simp
  have "dotProductOf a b
        \<le> sqrt (\<Sum>k \<in> ?K. (getOrZero a k)\<^sup>2) * sqrt (\<Sum>k \<in> ?K. (getOrZero b k)\<^sup>2)"
    unfolding dotProductOf_sum by (rule sum_products_le_magnitudes [OF fin])
  then show ?thesis
    using magnitudeOf_sum_superset [OF assms(1) fin] magnitudeOf_sum_superset [OF assms(2) fin]
    by simp
qed

lemma magnitudeOf_nonneg: "0 \<le> magnitudeOf a"
proof -
  have "0 \<le> sum_list (map (\<lambda>v. v * v) (map snd a))"
    by (rule sum_list_nonneg) auto
  then show ?thesis by (simp add: magnitudeOf_def foldl_plus_sum_list)
qed

lemma getOrZero_nonneg:
  fixes a :: "(string \<times> real) list"
  assumes "\<forall>v \<in> set (map snd a). 0 \<le> v"
  shows "0 \<le> getOrZero a k"
proof (cases "Map_get a k")
  case None
  then show ?thesis by (simp add: getOrZero_def)
next
  case (Some v)
  then have "(k, v) \<in> set a" by (simp add: Map_get_def map_of_SomeD)
  then have "0 \<le> v" using assms by force
  then show ?thesis using Some by (simp add: getOrZero_def)
qed

lemma dotProductOf_nonneg:
  assumes "\<forall>v \<in> set (map snd a). 0 \<le> v" and "\<forall>v \<in> set (map snd b). 0 \<le> v"
  shows "0 \<le> dotProductOf a b"
  unfolding dotProductOf_sum
  by (intro sum_nonneg mult_nonneg_nonneg getOrZero_nonneg assms)

lemma dotProductOf_self:
  assumes "wfMap a"
  shows "dotProductOf a a = (magnitudeOf a)\<^sup>2"
proof -
  have "0 \<le> (\<Sum>k \<in> fst ` set a. (getOrZero a k)\<^sup>2)" by (simp add: sum_nonneg)
  then show ?thesis
    by (simp add: dotProductOf_sum magnitudeOf_sum [OF assms] power2_eq_square)
qed

lemma cosineSimilarity_le_1:
  assumes "wfMap a" and "wfMap b"
  shows "cosineSimilarity a b \<le> 1"
proof (cases "magnitudeOf a = 0 \<or> magnitudeOf b = 0")
  case True
  then show ?thesis by (auto simp: cosineSimilarity_def Let_def)
next
  case False
  then have pos: "0 < magnitudeOf a * magnitudeOf b"
    using magnitudeOf_nonneg [of a] magnitudeOf_nonneg [of b] by (simp add: less_le)
  have "dotProductOf a b / (magnitudeOf a * magnitudeOf b) \<le> 1"
    using dotProductOf_le_magnitudes [OF assms] pos by (simp add: divide_le_eq)
  then show ?thesis using False by (simp add: cosineSimilarity_def Let_def)
qed

lemma cosineSimilarity_nonneg:
  assumes "\<forall>v \<in> set (map snd a). 0 \<le> v" and "\<forall>v \<in> set (map snd b). 0 \<le> v"
  shows "0 \<le> cosineSimilarity a b"
  using dotProductOf_nonneg [OF assms] magnitudeOf_nonneg [of a] magnitudeOf_nonneg [of b]
  by (simp add: cosineSimilarity_def Let_def)

lemma cosineSimilarity_self:
  assumes "wfMap a" and "magnitudeOf a \<noteq> 0"
  shows "cosineSimilarity a a = 1"
  using assms(2)
  by (simp add: cosineSimilarity_def Let_def dotProductOf_self [OF assms(1)] power2_eq_square)


text \<open>
  Without rounding, the similarity of two \<open>Map\<close>s lies between 0 and 1 when no
  weight is negative, the similarity of a vector with itself is 1, and the order of the
  arguments does not matter. The function of the source rounds every operation, and
  none of the three survives the rounding unchanged.
\<close>

lemma cosineSimilarity_exact_symmetric: "cosineSimilarity a b = cosineSimilarity b a"
proof -
  have "dotProductOf a b = dotProductOf b a"
    unfolding dotProductOf_sum by (simp add: Un_commute mult.commute)
  then show ?thesis
    by (simp add: cosineSimilarity_def Let_def mult.commute disj_commute)
qed

section \<open>Cosine similarity in double precision\<close>

text \<open>The equations that evaluate the arithmetic on numerals.\<close>

lemmas double_eval = pow2_def exponentOf_def roundEven_def roundPos_def negate_def
  roundDouble_def sqrtPos_def bitLength.simps isqrt.simps Let_def

lemma pow2_positive: "0 < pow2 k"
  by (simp add: pow2_def)




lemma isqrt_nonneg: "0 \<le> isqrt n"
proof (induction n rule: isqrt.induct)
  case (1 n)
  show ?case
  proof (cases "n < 2")
    case True
    then show ?thesis by (subst isqrt.simps) simp
  next
    case False
    then have "0 \<le> isqrt (n div 4)" by (rule "1.IH")
    then show ?thesis using False by (subst isqrt.simps) (simp add: Let_def)
  qed
qed












lemma fmul_commute: "fmul x y = fmul y x"
  by (cases x; cases y) (simp_all add: mult.commute)


subsection \<open>The rounding\<close>

text \<open>
  The powers of two, and the exponent of a positive number \<open>x\<close>: the \<open>e\<close> with
  \<open>2 ^ e \<le> x < 2 ^ (e + 1)\<close>.
\<close>

lemma powr_nat_power: "0 \<le> j \<Longrightarrow> (2::real) powr (of_int j) = 2 ^ nat j"
proof -
  assume "0 \<le> j"
  then have "(of_int j :: real) = real (nat j)" by simp
  then show ?thesis by (simp only: powr_realpow zero_less_numeral)
qed

lemma pow2_powr: "pow2 k = 2 powr (of_int k)"
proof (cases "0 \<le> k")
  case True
  then show ?thesis by (simp add: pow2_def powr_nat_power)
next
  case False
  then have "(2::real) powr (of_int (- k)) = 2 ^ nat (- k)"
    by (intro powr_nat_power) simp
  moreover have "(2::real) powr (of_int k) = 1 / 2 powr (of_int (- k))"
    by (simp add: powr_minus_divide)
  ultimately show ?thesis using False by (simp add: pow2_def)
qed

lemma pow2_add: "pow2 (a + b) = pow2 a * pow2 b"
  by (simp add: pow2_powr powr_add)

lemma pow2_less_iff: "(pow2 a < pow2 b) = (a < b)"
  by (simp add: pow2_powr)

lemma pow2_le_iff: "(pow2 a \<le> pow2 b) = (a \<le> b)"
  by (simp add: pow2_powr)

lemma pow2_nat: "0 \<le> k \<Longrightarrow> pow2 k = 2 ^ nat k"
  by (simp add: pow2_def)

lemma power_nat_shift:
  assumes "0 \<le> c" and "0 \<le> b"
  shows "(2::int) ^ nat (c + b) = 2 ^ nat b * 2 ^ nat c"
proof -
  have "nat (c + b) = nat b + nat c" using assms by linarith
  then show ?thesis by (simp add: power_add)
qed

lemma bitLength_bounds:
  "0 < n \<Longrightarrow> 0 < bitLength n \<and> 2 ^ nat (bitLength n - 1) \<le> n \<and> n < 2 ^ nat (bitLength n)"
proof (induction n rule: bitLength.induct)
  case (1 n)
  show ?case
  proof (cases "18446744073709551616 \<le> n")
    case True
    let ?m = "n div 18446744073709551616"
    have m: "0 < ?m" using True by (simp add: pos_imp_zdiv_pos_iff)
    have ih: "0 < bitLength ?m \<and> 2 ^ nat (bitLength ?m - 1) \<le> ?m \<and> ?m < 2 ^ nat (bitLength ?m)"
      using "1.IH"(1) "1.prems" True m by simp
    have b: "bitLength n = 64 + bitLength ?m"
      using "1.prems" True by (subst bitLength.simps) simp
    have lo: "?m * 18446744073709551616 \<le> n" and hi: "n < (?m + 1) * 18446744073709551616"
      by (simp_all add: algebra_simps)
    have e1: "(2::int) ^ nat (64 + bitLength ?m - 1) = 2 ^ nat (bitLength ?m - 1) * 18446744073709551616"
      using ih power_nat_shift [of 64 "bitLength ?m - 1"] by (simp add: algebra_simps)
    have e2: "(2::int) ^ nat (64 + bitLength ?m) = 2 ^ nat (bitLength ?m) * 18446744073709551616"
      using ih power_nat_shift [of 64 "bitLength ?m"] by (simp add: algebra_simps)
    have A: "2 ^ nat (bitLength ?m - 1) * 18446744073709551616 \<le> n"
    proof -
      have "2 ^ nat (bitLength ?m - 1) * 18446744073709551616 \<le> ?m * 18446744073709551616"
        using ih by (intro mult_right_mono) simp_all
      then show ?thesis using lo by linarith
    qed
    have B: "n < 2 ^ nat (bitLength ?m) * 18446744073709551616"
    proof -
      have "?m + 1 \<le> 2 ^ nat (bitLength ?m)" using ih by simp
      then have "(?m + 1) * 18446744073709551616 \<le> 2 ^ nat (bitLength ?m) * 18446744073709551616"
        by (intro mult_right_mono) simp_all
      then show ?thesis using hi by linarith
    qed
    have r1: "2 ^ nat (bitLength n - 1) \<le> n" by (simp only: b e1) (rule A)
    have r2: "n < 2 ^ nat (bitLength n)" by (simp only: b e2) (rule B)
    have r0: "0 < bitLength n" using ih by (simp add: b)
    show ?thesis using r0 r1 r2 by blast
  next
    case False
    show ?thesis
    proof (cases "n = 1")
      case True
      have "bitLength 1 = 1" by (simp add: bitLength.simps)
      then show ?thesis using True by simp
    next
      case n1: False
      let ?m = "n div 2"
      have m: "0 < ?m" using "1.prems" n1 by simp
      have ih: "0 < bitLength ?m \<and> 2 ^ nat (bitLength ?m - 1) \<le> ?m \<and> ?m < 2 ^ nat (bitLength ?m)"
        using "1.IH"(2) "1.prems" False m by simp
      have b: "bitLength n = 1 + bitLength ?m"
        using "1.prems" False by (subst bitLength.simps) simp
      have lo: "?m * 2 \<le> n" and hi: "n < (?m + 1) * 2"
        by simp_all
      have e1: "(2::int) ^ nat (1 + bitLength ?m - 1) = 2 ^ nat (bitLength ?m - 1) * 2"
        using ih power_nat_shift [of 1 "bitLength ?m - 1"] by (simp add: algebra_simps)
      have e2: "(2::int) ^ nat (1 + bitLength ?m) = 2 ^ nat (bitLength ?m) * 2"
        using ih power_nat_shift [of 1 "bitLength ?m"] by (simp add: algebra_simps)
      have A: "2 ^ nat (bitLength ?m - 1) * 2 \<le> n" using ih lo by linarith
      have B: "n < 2 ^ nat (bitLength ?m) * 2" using ih hi by linarith
      have r1: "2 ^ nat (bitLength n - 1) \<le> n" by (simp only: b e1) (rule A)
      have r2: "n < 2 ^ nat (bitLength n)" by (simp only: b e2) (rule B)
      have r0: "0 < bitLength n" using ih by (simp add: b)
      show ?thesis using r0 r1 r2 by blast
    qed
  qed
qed

lemma pow2_0: "pow2 0 = 1"
  by (simp add: pow2_def)

lemma pow2_minus: "pow2 (- k) = 1 / pow2 k"
proof -
  have "pow2 (- k) * pow2 k = 1" using pow2_add [of "- k" k] by (simp add: pow2_0)
  then show ?thesis using pow2_positive [of k] by (simp add: field_simps)
qed

lemma pow2_Suc: "pow2 (k + 1) = 2 * pow2 k"
  using pow2_add [of k 1] by (simp add: pow2_def)

lemma pow2_of_int: "0 \<le> k \<Longrightarrow> pow2 k = of_int (2 ^ nat k)"
  by (simp add: pow2_def)

lemma floor_bitLength_bounds:
  assumes "1 \<le> y"
  shows "0 \<le> bitLength \<lfloor>y\<rfloor> - 1 \<and> pow2 (bitLength \<lfloor>y\<rfloor> - 1) \<le> y
         \<and> y < pow2 (bitLength \<lfloor>y\<rfloor> - 1 + 1)"
proof -
  let ?n = "\<lfloor>y\<rfloor>"
  have n: "0 < ?n" using assms by simp
  note b = bitLength_bounds [OF n]
  have "pow2 (bitLength ?n - 1) = of_int (2 ^ nat (bitLength ?n - 1))"
    using b by (intro pow2_of_int) simp
  also have "\<dots> \<le> of_int ?n" using b by (simp only: of_int_le_iff)
  also have "\<dots> \<le> y" by simp
  finally have lo: "pow2 (bitLength ?n - 1) \<le> y" .
  have "?n + 1 \<le> 2 ^ nat (bitLength ?n)" using b by simp
  then have "(of_int (?n + 1) :: real) \<le> of_int (2 ^ nat (bitLength ?n))"
    by (simp only: of_int_le_iff)
  moreover have "y < of_int (?n + 1)" by simp
  moreover have "pow2 (bitLength ?n - 1 + 1) = of_int (2 ^ nat (bitLength ?n))"
    using b pow2_of_int [of "bitLength ?n"] by simp
  ultimately have hi: "y < pow2 (bitLength ?n - 1 + 1)" by linarith
  show ?thesis using b lo hi by simp
qed

lemma exponentOf_bounds:
  assumes "0 < x"
  shows "pow2 (exponentOf x) \<le> x \<and> x < pow2 (exponentOf x + 1)"
proof (cases "1 \<le> x")
  case True
  then show ?thesis using floor_bitLength_bounds [OF True] by (simp add: exponentOf_def)
next
  case False
  let ?f = "bitLength \<lfloor>1 / x\<rfloor> - 1"
  have y: "1 \<le> 1 / x" using assms False by simp
  note b = floor_bitLength_bounds [OF y]
  have lo: "pow2 ?f \<le> 1 / x" and hi: "1 / x < pow2 (?f + 1)" using b by simp_all
  have p: "0 < pow2 ?f" and p1: "0 < pow2 (?f + 1)" by (rule pow2_positive)+
  show ?thesis
  proof (cases "x * pow2 ?f = 1")
    case True
    then have "x = 1 / pow2 ?f" using p by (simp add: field_simps)
    then have x: "x = pow2 (- ?f)" by (simp only: pow2_minus)
    have "pow2 (- ?f) < pow2 (- ?f + 1)" by (simp add: pow2_less_iff)
    then show ?thesis using False True x by (simp add: exponentOf_def Let_def)
  next
    case ne: False
    have "pow2 ?f \<noteq> 1 / x" using ne assms by (auto simp: field_simps)
    then have lt: "pow2 ?f < 1 / x" using lo by simp
    have e: "- ?f - 1 + 1 = - ?f" by simp
    have "x < 1 / pow2 ?f" using lt assms p by (simp add: field_simps)
    then have "x < pow2 (- ?f)" by (simp only: pow2_minus)
    then have up: "x < pow2 (- ?f - 1 + 1)" by (simp only: e)
    have "1 / pow2 (?f + 1) < x" using hi assms p1 by (simp add: field_simps)
    then have "pow2 (- (?f + 1)) < x" by (simp only: pow2_minus)
    moreover have "- (?f + 1) = - ?f - 1" by simp
    ultimately have low: "pow2 (- ?f - 1) \<le> x" by (simp only: less_imp_le)
    show ?thesis using False ne low up by (simp add: exponentOf_def Let_def)
  qed
qed

lemma exponentOf_unique:
  assumes "pow2 e \<le> x" and "x < pow2 (e + 1)"
  shows "exponentOf x = e"
proof -
  have x: "0 < x" using assms(1) pow2_positive [of e] by linarith
  note b = exponentOf_bounds [OF x]
  have "pow2 e < pow2 (exponentOf x + 1)" using assms(1) b by linarith
  then have "e < exponentOf x + 1" by (simp only: pow2_less_iff)
  moreover have "pow2 (exponentOf x) < pow2 (e + 1)" using assms(2) b by linarith
  then have "exponentOf x < e + 1" by (simp only: pow2_less_iff)
  ultimately show ?thesis by simp
qed

lemma roundEven_nearest: "\<bar>of_int (roundEven n) - n\<bar> \<le> 1 / 2"
  by (simp add: roundEven_def Let_def)

lemma roundEven_of_int: "roundEven (of_int m) = m"
  by (simp add: roundEven_def Let_def)

lemma roundEven_mono_bounds:
  assumes "of_int lo \<le> n" and "n \<le> of_int hi"
  shows "lo \<le> roundEven n \<and> roundEven n \<le> hi"
proof -
  have f: "lo \<le> \<lfloor>n\<rfloor>" using assms(1) by (simp add: le_floor_iff)
  have c: "\<lfloor>n\<rfloor> \<le> hi" using assms(2) by (simp add: floor_le_iff)
  show ?thesis
  proof (cases "n = of_int \<lfloor>n\<rfloor>")
    case True
    then have "roundEven n = \<lfloor>n\<rfloor>" by (metis roundEven_of_int)
    then show ?thesis using f c by simp
  next
    case False
    then have "of_int \<lfloor>n\<rfloor> < n" using of_int_floor_le [of n] by (metis order_le_less)
    then have "of_int \<lfloor>n\<rfloor> < (of_int hi :: real)" using assms(2) by linarith
    then have "\<lfloor>n\<rfloor> + 1 \<le> hi" by simp
    moreover have "\<lfloor>n\<rfloor> \<le> roundEven n \<and> roundEven n \<le> \<lfloor>n\<rfloor> + 1"
      by (simp add: roundEven_def Let_def)
    ultimately show ?thesis using f by linarith
  qed
qed

lemma pow2_diff: "pow2 (a - b) = pow2 a / pow2 b"
  using pow2_add [of a "- b"] by (simp add: pow2_minus)

lemma pow2_split: "a = b + c \<Longrightarrow> pow2 a = pow2 b * pow2 c"
  by (simp add: pow2_add)

lemma pow2_52: "pow2 52 = 4503599627370496"
  by (simp add: pow2_def)

lemma pow2_53: "pow2 53 = 9007199254740992"
  by (simp add: pow2_def)

text \<open>
  The rounding of a positive number: the result is a whole multiple, of at most
  \<open>2 ^ 53\<close>, of the spacing \<open>q\<close> of the doubles at the exponent of the number, and
  it lies within half a spacing of the number.
\<close>

lemma roundPos_nearest:
  assumes "0 < x"
  defines "q \<equiv> pow2 (max (exponentOf x) (- 1022) - 52)"
  defines "m \<equiv> roundEven (x / q)"
  shows "roundPos x = (if pow2 1024 \<le> of_int m * q then PInf else Finite (of_int m * q))"
    and "\<bar>of_int m * q - x\<bar> \<le> q / 2"
    and "0 \<le> m" and "m \<le> 2 ^ 53"
    and "- 1022 \<le> exponentOf x \<Longrightarrow> 2 ^ 52 \<le> m"
proof -
  have q: "0 < q" unfolding q_def by (rule pow2_positive)
  show "roundPos x = (if pow2 1024 \<le> of_int m * q then PInf else Finite (of_int m * q))"
    by (simp add: roundPos_def Let_def q_def m_def)
  have "\<bar>of_int m - x / q\<bar> \<le> 1 / 2" unfolding m_def by (rule roundEven_nearest)
  then have "\<bar>of_int m - x / q\<bar> * q \<le> 1 / 2 * q" using q by (intro mult_right_mono) simp_all
  moreover have "\<bar>of_int m - x / q\<bar> * q = \<bar>(of_int m - x / q) * q\<bar>"
    using q by (simp add: abs_mult)
  moreover have "(of_int m - x / q) * q = of_int m * q - x"
    using q by (simp add: left_diff_distrib)
  ultimately show "\<bar>of_int m * q - x\<bar> \<le> q / 2" by simp
  note b = exponentOf_bounds [OF assms(1)]
  have "x < pow2 (max (exponentOf x) (- 1022) + 1)"
  proof -
    have "pow2 (exponentOf x + 1) \<le> pow2 (max (exponentOf x) (- 1022) + 1)"
      by (simp add: pow2_le_iff)
    then show ?thesis using b by linarith
  qed
  also have "\<dots> = pow2 53 * q"
    unfolding q_def by (rule pow2_split) simp
  finally have "x / q < pow2 53" using q by (simp add: field_simps)
  then have hi: "x / q \<le> of_int (2 ^ 53)" by (simp add: pow2_53)
  have lo: "of_int 0 \<le> x / q" using assms(1) q by simp
  from roundEven_mono_bounds [OF lo hi] show "0 \<le> m" and "m \<le> 2 ^ 53"
    by (simp_all add: m_def)
  show "2 ^ 52 \<le> m" if n: "- 1022 \<le> exponentOf x"
  proof -
    have e: "max (exponentOf x) (- 1022) = exponentOf x" using n by simp
    have "pow2 (exponentOf x) = pow2 52 * q"
      unfolding q_def e by (rule pow2_split) simp
    then have "pow2 52 * q \<le> x" using b by simp
    then have "pow2 52 \<le> x / q" using q by (simp add: field_simps)
    then have lo': "of_int (2 ^ 52) \<le> x / q" by (simp add: pow2_52)
    from roundEven_mono_bounds [OF lo' hi] show ?thesis by (simp add: m_def)
  qed
qed

text \<open>A double: a whole multiple of the spacing at its exponent, below \<open>2 ^ 1024\<close>.\<close>

lemma roundPos_fixed:
  assumes "0 < m" and "m \<le> 2 ^ 53" and "- 1022 \<le> e" and "- 1022 < e \<Longrightarrow> 2 ^ 52 \<le> m"
    and "of_int m * pow2 (e - 52) < pow2 1024"
  shows "roundPos (of_int m * pow2 (e - 52)) = Finite (of_int m * pow2 (e - 52))"
proof -
  let ?q = "pow2 (e - 52)"
  let ?v = "of_int m * ?q"
  have q: "0 < ?q" by (rule pow2_positive)
  have v: "0 < ?v" using assms(1) q by simp
  have pe: "pow2 e = pow2 52 * ?q" by (rule pow2_split) simp
  have pe1: "pow2 (e + 1) = pow2 53 * ?q" by (rule pow2_split) simp
  have "\<exists>k. max (exponentOf ?v) (- 1022) - 52 = k \<and> (\<exists>j. ?v = of_int j * pow2 k)"
  proof (cases "m = 2 ^ 53")
    case True
    then have vv: "?v = pow2 (e + 1)" by (simp add: pe1 pow2_53)
    have "pow2 (e + 1) < pow2 (e + 1 + 1)" by (simp add: pow2_less_iff)
    then have "exponentOf ?v = e + 1" using vv by (intro exponentOf_unique) simp_all
    then have "max (exponentOf ?v) (- 1022) - 52 = e + 1 - 52" using assms(3) by simp
    moreover have "pow2 (e + 1) = pow2 52 * pow2 (e + 1 - 52)" by (rule pow2_split) simp
    then have "?v = of_int (2 ^ 52) * pow2 (e + 1 - 52)"
      by (simp only: vv pow2_52) simp
    ultimately show ?thesis by blast
  next
    case False
    then have "m < 2 ^ 53" using assms(2) by simp
    then have "(of_int m :: real) < of_int (2 ^ 53)" by (simp only: of_int_less_iff)
    then have "?v < pow2 53 * ?q" using q by (simp add: pow2_53)
    then have up: "?v < pow2 (e + 1)" by (simp only: pe1)
    have "max (exponentOf ?v) (- 1022) = e"
    proof (cases "2 ^ 52 \<le> m")
      case True
      then have "(of_int (2 ^ 52) :: real) \<le> of_int m" by (simp only: of_int_le_iff)
      then have "pow2 52 * ?q \<le> ?v" using q by (simp add: pow2_52)
      then have "pow2 e \<le> ?v" by (simp only: pe)
      then have "exponentOf ?v = e" using up by (rule exponentOf_unique)
      then show ?thesis using assms(3) by simp
    next
      case False
      then have e: "e = - 1022" using assms(3,4) by force
      from False have "m < 2 ^ 52" by simp
      then have "(of_int m :: real) < of_int (2 ^ 52)" by (simp only: of_int_less_iff)
      then have "?v < pow2 52 * ?q" using q by (simp add: pow2_52)
      then have "?v < pow2 e" by (simp only: pe)
      then have "?v < pow2 (- 1022)" using e by simp
      then have "pow2 (exponentOf ?v) < pow2 (- 1022)"
        using exponentOf_bounds [OF v] by linarith
      then have "exponentOf ?v < - 1022" by (simp only: pow2_less_iff)
      then show ?thesis using e by simp
    qed
    then show ?thesis by auto
  qed
  then obtain k j where k: "max (exponentOf ?v) (- 1022) - 52 = k" and j: "?v = of_int j * pow2 k"
    by blast
  have "?v / pow2 k = of_int j" using j pow2_positive [of k] by simp
  then have "roundEven (?v / pow2 k) = j" by (simp only: roundEven_of_int)
  then have "of_int (roundEven (?v / pow2 k)) * pow2 k = ?v" using j by simp
  then show ?thesis using assms(5) k by (simp add: roundPos_def Let_def)
qed

lemma roundPos_idempotent:
  assumes "0 < x" and "roundPos x = Finite v" and "v \<noteq> 0"
  shows "0 < v \<and> roundPos v = Finite v"
proof -
  let ?e = "max (exponentOf x) (- 1022)"
  let ?q = "pow2 (?e - 52)"
  let ?m = "roundEven (x / ?q)"
  note r = roundPos_nearest [OF assms(1)]
  have fin: "\<not> pow2 1024 \<le> of_int ?m * ?q" and v: "v = of_int ?m * ?q"
    using r(1) assms(2) by (auto split: if_splits)
  have m0: "0 < ?m" using r(3) assms(3) v by (cases "?m = 0") auto
  have m1: "2 ^ 52 \<le> ?m" if "- 1022 < ?e"
  proof -
    from that have "- 1022 \<le> exponentOf x" by simp
    then show ?thesis by (rule r(5))
  qed
  have "roundPos (of_int ?m * ?q) = Finite (of_int ?m * ?q)"
    using fin by (intro roundPos_fixed m0 r(4) m1) simp_all
  moreover have "0 < of_int ?m * ?q" using m0 pow2_positive [of "?e - 52"] by simp
  ultimately show ?thesis by (simp only: v)
qed

lemma roundDouble_idempotent:
  assumes "roundDouble x = Finite v"
  shows "roundDouble v = Finite v"
proof (cases "v = 0")
  case True
  then show ?thesis by (simp add: roundDouble_def)
next
  case v: False
  show ?thesis
  proof (cases "0 < x")
    case True
    then have "roundPos x = Finite v" using assms by (simp add: roundDouble_def)
    from roundPos_idempotent [OF True this v] show ?thesis by (simp add: roundDouble_def)
  next
    case False
    have x0: "x \<noteq> 0" using assms v by (auto simp: roundDouble_def)
    then have nx: "0 < - x" using False by simp
    have "negate (roundPos (- x)) = Finite v" using assms False x0 by (simp add: roundDouble_def)
    then have "roundPos (- x) = Finite (- v)"
      by (cases "roundPos (- x)") (simp_all add: negate_def)
    from roundPos_idempotent [OF nx this] v have "0 < - v \<and> roundPos (- v) = Finite (- v)"
      by simp
    then show ?thesis by (simp add: roundDouble_def negate_def)
  qed
qed

lemma isqrt_bounds:
  "0 \<le> n \<Longrightarrow> isqrt n * isqrt n \<le> n \<and> n < (isqrt n + 1) * (isqrt n + 1)"
proof (induction n rule: isqrt.induct)
  case (1 n)
  show ?case
  proof (cases "n < 2")
    case True
    then have "n = 0 \<or> n = 1" using "1.prems" by auto
    then show ?thesis by (auto simp: isqrt.simps [of 0] isqrt.simps [of 1])
  next
    case False
    define s where "s = isqrt (n div 4)"
    have "0 \<le> n div 4" using "1.prems" by simp
    from "1.IH" [OF False this] have lo: "s * s \<le> n div 4" and hi: "n div 4 < (s + 1) * (s + 1)"
      by (simp_all add: s_def)
    have n1: "4 * (n div 4) \<le> n" and n2: "n < 4 * (n div 4) + 4" by presburger+
    have a: "(2 * s) * (2 * s) = 4 * (s * s)" by simp
    have b: "(2 * s + 1 + 1) * (2 * s + 1 + 1) = 4 * ((s + 1) * (s + 1))" by (simp add: algebra_simps)
    have l: "(2 * s) * (2 * s) \<le> n" using lo n1 unfolding a by linarith
    have h: "n < (2 * s + 1 + 1) * (2 * s + 1 + 1)" using hi n2 unfolding b by linarith
    have "isqrt n = (if (2 * s + 1) * (2 * s + 1) \<le> n then 2 * s + 1 else 2 * s)"
      using False by (subst isqrt.simps) (simp add: Let_def s_def)
    then show ?thesis using l h by auto
  qed
qed

text \<open>
  The square root of a positive number: a significand from \<open>2 ^ 52\<close> to \<open>2 ^ 53\<close>
  at the scale \<open>k\<close>, within half a unit of the exact root.
\<close>

lemma sqrtPos_nearest:
  assumes "0 < x"
  defines "k \<equiv> exponentOf x div 2 - 52"
  shows "\<exists>m. sqrtPos x = Finite (of_int m * pow2 k) \<and> 2 ^ 52 \<le> m \<and> m \<le> 2 ^ 53
           \<and> \<bar>of_int m * pow2 k - sqrt x\<bar> \<le> pow2 k / 2"
proof -
  define y where "y = x / pow2 (2 * k)"
  define m where "m = isqrt \<lfloor>y\<rfloor>"
  define h :: real where "h = of_int (m * m + m) + 1 / 4"
  define m' where "m' = (if y < h then m else if h < y then m + 1 else if even m then m else m + 1)"
  have res: "sqrtPos x = Finite (of_int m' * pow2 k)"
    by (simp add: sqrtPos_def Let_def k_def y_def m_def h_def m'_def)
  have pk: "0 < pow2 k" and p2k: "0 < pow2 (2 * k)" by (rule pow2_positive)+
  have kk: "pow2 (2 * k) = pow2 k * pow2 k" by (rule pow2_split) simp
  have y0: "0 < y" using assms(1) p2k by (simp add: y_def)
  note b = exponentOf_bounds [OF assms(1)]
  define e where "e = exponentOf x"
  have "e = 2 * k + 104 \<or> e = 2 * k + 105" unfolding k_def e_def by presburger
  then have ylo: "pow2 104 \<le> y" and yhi: "y < pow2 106"
  proof -
    assume d: "e = 2 * k + 104 \<or> e = 2 * k + 105"
    have "pow2 (2 * k + 104) \<le> pow2 e" using d by (auto simp: pow2_le_iff)
    moreover have "pow2 (2 * k + 104) = pow2 104 * pow2 (2 * k)" by (rule pow2_split) simp
    ultimately have "pow2 104 * pow2 (2 * k) \<le> x" using b by (simp add: e_def)
    then show "pow2 104 \<le> y" using p2k by (simp add: y_def field_simps)
    have "pow2 (e + 1) \<le> pow2 (2 * k + 106)" using d by (auto simp: pow2_le_iff)
    moreover have "pow2 (2 * k + 106) = pow2 106 * pow2 (2 * k)" by (rule pow2_split) simp
    ultimately have "x < pow2 106 * pow2 (2 * k)" using b by (simp add: e_def)
    then show "y < pow2 106" using p2k by (simp add: y_def field_simps)
  qed
  have fy: "0 \<le> \<lfloor>y\<rfloor>" using y0 by simp
  note ib = isqrt_bounds [OF fy, folded m_def]
  have m0: "0 \<le> m" unfolding m_def by (rule isqrt_nonneg)
  have "of_int (m * m) \<le> (of_int \<lfloor>y\<rfloor> :: real)" using ib by (simp only: of_int_le_iff)
  then have mlo: "of_int m * of_int m \<le> y" by (simp add: le_floor_iff) linarith
  have "\<lfloor>y\<rfloor> + 1 \<le> (m + 1) * (m + 1)" using ib by simp
  then have "(of_int (\<lfloor>y\<rfloor> + 1) :: real) \<le> of_int ((m + 1) * (m + 1))" by (simp only: of_int_le_iff)
  then have mhi: "y < (of_int m + 1) * (of_int m + 1)" by simp linarith
  have s0: "0 \<le> sqrt y" using y0 by simp
  have ss: "sqrt y * sqrt y = y" using y0 by simp
  have sl: "of_int m \<le> sqrt y"
  proof (rule ccontr)
    assume "\<not> of_int m \<le> sqrt y"
    then have "sqrt y < of_int m" by simp
    then have "sqrt y * sqrt y < of_int m * of_int m" using s0 by (intro mult_strict_mono') simp_all
    then show False using mlo ss by simp
  qed
  have sh: "sqrt y < of_int m + 1"
  proof (rule ccontr)
    assume "\<not> sqrt y < of_int m + 1"
    then have "of_int m + 1 \<le> sqrt y" by simp
    then have "(of_int m + 1) * (of_int m + 1) \<le> sqrt y * sqrt y"
      using m0 s0 by (intro mult_mono) simp_all
    then show False using mhi ss by simp
  qed
  have hh: "h = (of_int m + 1 / 2) * (of_int m + 1 / 2)"
    by (simp add: h_def algebra_simps)
  have half: "0 \<le> (of_int m :: real) + 1 / 2" using m0 by simp
  have c1: "sqrt y < of_int m + 1 / 2" if "y < h"
  proof (rule ccontr)
    assume "\<not> sqrt y < of_int m + 1 / 2"
    then have "of_int m + 1 / 2 \<le> sqrt y" by simp
    then have "(of_int m + 1 / 2) * (of_int m + 1 / 2) \<le> sqrt y * sqrt y"
      using half s0 by (intro mult_mono) simp_all
    then show False using that ss hh by simp
  qed
  have c2: "of_int m + 1 / 2 < sqrt y" if "h < y"
  proof (rule ccontr)
    assume "\<not> of_int m + 1 / 2 < sqrt y"
    then have "sqrt y \<le> of_int m + 1 / 2" by simp
    then have "sqrt y * sqrt y \<le> (of_int m + 1 / 2) * (of_int m + 1 / 2)"
      using s0 half by (intro mult_mono) simp_all
    then show False using that ss hh by simp
  qed
  have c3: "sqrt y = of_int m + 1 / 2" if "y = h"
  proof -
    have "sqrt y = sqrt ((of_int m + 1 / 2) * (of_int m + 1 / 2))" using that hh by simp
    also have "\<dots> = \<bar>of_int m + 1 / 2\<bar>" by (simp only: real_sqrt_abs2)
    finally show ?thesis using half by simp
  qed
  have near: "\<bar>of_int m' - sqrt y\<bar> \<le> 1 / 2"
  proof -
    consider "y < h" | "h < y" | "y = h" by linarith
    then show ?thesis
    proof cases
      case 1
      then have "m' = m" by (simp add: m'_def)
      then show ?thesis using c1 [OF 1] sl by simp
    next
      case 2
      then have "m' = m + 1" by (simp add: m'_def)
      then show ?thesis using c2 [OF 2] sh by simp
    next
      case 3
      then have "m' = m \<or> m' = m + 1" by (simp add: m'_def)
      then show ?thesis using c3 [OF 3] by auto
    qed
  qed
  have p52: "pow2 104 = pow2 52 * pow2 52" by (rule pow2_split) simp
  have p53: "pow2 106 = pow2 53 * pow2 53" by (rule pow2_split) simp
  have r52: "pow2 52 \<le> sqrt y"
  proof (rule ccontr)
    assume "\<not> pow2 52 \<le> sqrt y"
    then have "sqrt y < pow2 52" by simp
    then have "sqrt y * sqrt y < pow2 52 * pow2 52" using s0 by (intro mult_strict_mono') simp_all
    then show False using ylo ss p52 by simp
  qed
  have r53: "sqrt y < pow2 53"
  proof (rule ccontr)
    assume "\<not> sqrt y < pow2 53"
    then have "pow2 53 \<le> sqrt y" by simp
    then have "pow2 53 * pow2 53 \<le> sqrt y * sqrt y"
      using pow2_positive [of 53] s0 by (intro mult_mono) simp_all
    then show False using yhi ss p53 by simp
  qed
  have "(of_int (2 ^ 52) :: real) < of_int m + 1" using r52 sh by (simp add: pow2_52)
  then have "(of_int (2 ^ 52) :: real) < of_int (m + 1)" by simp
  then have "2 ^ 52 < m + 1" by (simp only: of_int_less_iff)
  then have mm1: "2 ^ 52 \<le> m" by simp
  have "(of_int m :: real) < of_int (2 ^ 53)" using r53 sl by (simp add: pow2_53)
  then have "m < 2 ^ 53" by (simp only: of_int_less_iff)
  then have mm2: "m + 1 \<le> 2 ^ 53" by simp
  have "m' = m \<or> m' = m + 1" by (simp add: m'_def)
  then have range: "2 ^ 52 \<le> m'" "m' \<le> 2 ^ 53" using mm1 mm2 by auto
  have "x = y * pow2 (2 * k)" using p2k by (simp add: y_def)
  then have "sqrt x = sqrt (y * (pow2 k * pow2 k))" by (simp only: kk)
  also have "\<dots> = sqrt y * sqrt (pow2 k * pow2 k)" by (rule real_sqrt_mult)
  also have "sqrt (pow2 k * pow2 k) = \<bar>pow2 k\<bar>" by (simp only: real_sqrt_abs2)
  finally have sx: "sqrt x = sqrt y * pow2 k" using pk by simp
  have "\<bar>of_int m' - sqrt y\<bar> * pow2 k \<le> 1 / 2 * pow2 k"
    using near pk by (intro mult_right_mono) simp_all
  moreover have "\<bar>of_int m' - sqrt y\<bar> * pow2 k = \<bar>(of_int m' - sqrt y) * pow2 k\<bar>"
    using pk by (simp add: abs_mult)
  moreover have "(of_int m' - sqrt y) * pow2 k = of_int m' * pow2 k - sqrt x"
    by (simp add: sx left_diff_distrib)
  ultimately have "\<bar>of_int m' * pow2 k - sqrt x\<bar> \<le> pow2 k / 2" by simp
  then show ?thesis using res range by blast
qed

subsection \<open>Values and orders of summation\<close>

text \<open>
  Some values of the arithmetic: \<open>0.1 + 0.2\<close> is \<open>0.30000000000000004\<close>; one
  third; the square root of 2; the tie below the least positive double goes to 0, the
  tie above it to the even neighbour; and what reaches \<open>2 ^ 1024\<close> is the infinity.
\<close>

lemma double_arithmetic_examples:
  "fadd (Finite (3602879701896397 / 36028797018963968))
        (Finite (3602879701896397 / 18014398509481984))
     = Finite (1351079888211149 / 4503599627370496)"
  "fdiv (Finite 1) (Finite 3) = Finite (6004799503160661 / 18014398509481984)"
  "fsqrt (Finite 2) = Finite (6369051672525773 / 4503599627370496)"
  "fmul (Finite (1 / 2 ^ 1074)) (Finite (1 / 2)) = Finite 0"
  "fmul (Finite (3 / 2 ^ 1074)) (Finite (1 / 2)) = Finite (1 / 2 ^ 1073)"
  "fmul (Finite (2 ^ 1023)) (Finite 2) = PInf"
  by (simp_all add: double_eval)

lemma sumOfProducts_commute: "sumOfProducts b a ks = sumOfProducts a b ks"
proof -
  have "(\<lambda>d k. fadd d (fmul (getOrZero_double b k) (getOrZero_double a k)))
        = (\<lambda>d k. fadd d (fmul (getOrZero_double a k) (getOrZero_double b k)))"
    by (intro ext arg_cong [where f = "fadd _"] fmul_commute)
  then show ?thesis by (simp add: sumOfProducts_def)
qed

lemma dotProduct_double_sum:
  "dotProduct_double a b = sumOfProducts a b (new_Set (map fst a @ map fst b))"
  by (simp add: dotProduct_double_def sumOfProducts_def Let_def)

lemma cosineSimilarity_double_forward:
  "cosineSimilarity_double a b =
     (if magnitude_double a = Finite 0 \<or> magnitude_double b = Finite 0 then Finite 0
      else fdiv (sumOfProducts a b (new_Set (map fst a @ map fst b)))
             (fmul (magnitude_double a) (magnitude_double b)))"
  by (simp add: cosineSimilarity_double_def Let_def dotProduct_double_sum)

lemma cosineSimilarity_double_backward:
  "cosineSimilarity_double b a =
     (if magnitude_double a = Finite 0 \<or> magnitude_double b = Finite 0 then Finite 0
      else fdiv (sumOfProducts a b (new_Set (map fst b @ map fst a)))
             (fmul (magnitude_double a) (magnitude_double b)))"
  using fmul_commute [of "magnitude_double b" "magnitude_double a"]
  by (auto simp: cosineSimilarity_double_def Let_def dotProduct_double_sum
      sumOfProducts_commute [of b a])

lemma cosineSimilarity_double_same_order:
  assumes "new_Set (map fst a @ map fst b) = new_Set (map fst b @ map fst a)"
  shows "cosineSimilarity_double a b = cosineSimilarity_double b a"
proof -
  have "cosineSimilarity_double a b =
     (if magnitude_double a = Finite 0 \<or> magnitude_double b = Finite 0 then Finite 0
      else fdiv (sumOfProducts a b (new_Set (map fst a @ map fst b)))
             (fmul (magnitude_double a) (magnitude_double b)))"
    by (rule cosineSimilarity_double_forward)
  also have "\<dots> =
     (if magnitude_double a = Finite 0 \<or> magnitude_double b = Finite 0 then Finite 0
      else fdiv (sumOfProducts a b (new_Set (map fst b @ map fst a)))
             (fmul (magnitude_double a) (magnitude_double b)))"
    by (simp only: assms)
  also have "\<dots> = cosineSimilarity_double b a"
    by (rule cosineSimilarity_double_backward [symmetric])
  finally show ?thesis .
qed

text \<open>What the arithmetic returns is a double, and adding 0 to a double changes nothing.\<close>

lemma roundDouble_representable: "representable (roundDouble x)"
  by (cases "roundDouble x") (simp_all add: representable_def roundDouble_idempotent)

lemma representable_zero: "representable (Finite 0)"
  by (simp add: representable_def roundDouble_def)

lemma fadd_representable: "representable (fadd x y)"
proof (cases x; cases y)
  fix a b
  assume "x = Finite a" and "y = Finite b"
  then show ?thesis by (simp add: roundDouble_representable)
qed (simp_all add: representable_def)

lemma fadd_zero: "representable x \<Longrightarrow> fadd x (Finite 0) = x"
  by (cases x) (simp_all add: representable_def)

lemma foldl_Set_add_distinct:
  "distinct xs \<Longrightarrow> foldl Set_add s xs = s @ filter (\<lambda>k. k \<notin> set s) xs"
proof (induction xs arbitrary: s)
  case Nil
  then show ?case by simp
next
  case (Cons x xs)
  have x: "x \<notin> set xs" and d: "distinct xs" using Cons.prems by simp_all
  show ?case
  proof (cases "x \<in> set s")
    case True
    then show ?thesis using Cons.IH [OF d, of s] by (simp add: Set_add_def)
  next
    case False
    have "filter (\<lambda>k. k \<notin> set (s @ [x])) xs = filter (\<lambda>k. k \<notin> set s) xs"
      using x by (intro filter_cong) auto
    then show ?thesis using False Cons.IH [OF d, of "s @ [x]"] by (simp add: Set_add_def)
  qed
qed

lemma new_Set_append:
  assumes "distinct xs" and "distinct ys"
  shows "new_Set (xs @ ys) = xs @ filter (\<lambda>k. k \<notin> set xs) ys"
proof -
  have "foldl Set_add [] xs = xs" using foldl_Set_add_distinct [OF assms(1), of "[]"] by simp
  then show ?thesis using foldl_Set_add_distinct [OF assms(2), of xs] by (simp add: new_Set_def)
qed

text \<open>A key that one of the vectors lacks adds the product 0, which changes no sum.\<close>

lemma getOrZero_double_finite:
  assumes "finiteWeights m"
  shows "\<exists>r. getOrZero_double m k = Finite r"
proof (cases "Map_get m k")
  case None
  then show ?thesis by (simp add: getOrZero_double_def)
next
  case (Some v)
  then have "v \<in> snd ` set m" by (auto simp: Map_get_def dest: map_of_SomeD intro: rev_image_eqI)
  then have "v \<noteq> PInf \<and> v \<noteq> NInf" using assms by (auto simp: finiteWeights_def list_all_iff)
  then show ?thesis using Some by (cases v) (simp_all add: getOrZero_double_def)
qed

lemma product_missing_key:
  assumes "finiteWeights a" and "finiteWeights b"
    and "k \<notin> set (map fst a) \<or> k \<notin> set (map fst b)"
  shows "fmul (getOrZero_double a k) (getOrZero_double b k) = Finite 0"
proof -
  obtain r s where r: "getOrZero_double a k = Finite r" and s: "getOrZero_double b k = Finite s"
    using getOrZero_double_finite [OF assms(1)] getOrZero_double_finite [OF assms(2)] by blast
  have "Map_get a k = None \<or> Map_get b k = None" using assms(3) by (auto simp: Map_get_None_iff)
  then have "r = 0 \<or> s = 0" using r s by (auto simp: getOrZero_double_def)
  then show ?thesis by (auto simp: r s roundDouble_def)
qed

lemma foldl_fadd_skip:
  assumes "representable d" and "\<And>k. k \<in> set ks \<Longrightarrow> \<not> P k \<Longrightarrow> f k = Finite 0"
  shows "foldl (\<lambda>d k. fadd d (f k)) d ks = foldl (\<lambda>d k. fadd d (f k)) d (filter P ks)"
  using assms
proof (induction ks arbitrary: d)
  case Nil
  then show ?case by simp
next
  case (Cons k ks)
  have r: "representable (fadd d (f k))" by (rule fadd_representable)
  have z: "\<And>k'. k' \<in> set ks \<Longrightarrow> \<not> P k' \<Longrightarrow> f k' = Finite 0" using Cons.prems(2) by simp
  show ?case
  proof (cases "P k")
    case True
    then show ?thesis using Cons.IH [OF r z] by simp
  next
    case False
    then have "f k = Finite 0" using Cons.prems(2) by simp
    then have "fadd d (f k) = d" using Cons.prems(1) by (simp add: fadd_zero)
    then show ?thesis using False Cons.IH [OF Cons.prems(1) z] by simp
  qed
qed

lemma sumOfProducts_commonKeys:
  assumes "wfMap a" and "wfMap b" and "finiteWeights a" and "finiteWeights b"
  shows "sumOfProducts a b (new_Set (map fst a @ map fst b)) = sumOfProducts a b (commonKeys a b)"
proof -
  let ?ka = "map fst a" and ?kb = "map fst b"
  let ?P = "\<lambda>k. k \<in> set ?ka \<and> k \<in> set ?kb"
  have n: "new_Set (?ka @ ?kb) = ?ka @ filter (\<lambda>k. k \<notin> set ?ka) ?kb"
    using assms(1,2) by (intro new_Set_append) (simp_all add: wfMap_def)
  have "filter ?P ?ka = commonKeys a b"
    unfolding commonKeys_def by (intro filter_cong) auto
  moreover have "filter ?P (filter (\<lambda>k. k \<notin> set ?ka) ?kb) = []"
    by (simp add: filter_empty_conv)
  ultimately have f: "filter ?P (new_Set (?ka @ ?kb)) = commonKeys a b"
    by (simp only: n filter_append) simp
  have "sumOfProducts a b (new_Set (?ka @ ?kb)) = sumOfProducts a b (filter ?P (new_Set (?ka @ ?kb)))"
    unfolding sumOfProducts_def
    by (intro foldl_fadd_skip representable_zero product_missing_key assms(3,4)) auto
  then show ?thesis by (simp only: f)
qed

lemma sumOfProducts_commonKeys_backward:
  assumes "wfMap a" and "wfMap b" and "finiteWeights a" and "finiteWeights b"
  shows "sumOfProducts a b (new_Set (map fst b @ map fst a)) = sumOfProducts a b (commonKeys b a)"
proof -
  have "sumOfProducts b a (new_Set (map fst b @ map fst a)) = sumOfProducts b a (commonKeys b a)"
    using assms by (intro sumOfProducts_commonKeys)
  then show ?thesis by (simp only: sumOfProducts_commute [of b a])
qed

lemma cosineSimilarity_double_common_order:
  assumes "wfMap a" and "wfMap b" and "finiteWeights a" and "finiteWeights b"
    and "commonKeys a b = commonKeys b a"
  shows "cosineSimilarity_double a b = cosineSimilarity_double b a"
proof -
  have "sumOfProducts a b (new_Set (map fst a @ map fst b))
        = sumOfProducts a b (new_Set (map fst b @ map fst a))"
    using sumOfProducts_commonKeys [OF assms(1-4)] sumOfProducts_commonKeys_backward [OF assms(1-4)]
    by (simp only: assms(5))
  then have "(if magnitude_double a = Finite 0 \<or> magnitude_double b = Finite 0 then Finite 0
      else fdiv (sumOfProducts a b (new_Set (map fst a @ map fst b)))
             (fmul (magnitude_double a) (magnitude_double b)))
    = (if magnitude_double a = Finite 0 \<or> magnitude_double b = Finite 0 then Finite 0
      else fdiv (sumOfProducts a b (new_Set (map fst b @ map fst a)))
             (fmul (magnitude_double a) (magnitude_double b)))"
    by simp
  then have "cosineSimilarity_double a b =
     (if magnitude_double a = Finite 0 \<or> magnitude_double b = Finite 0 then Finite 0
      else fdiv (sumOfProducts a b (new_Set (map fst b @ map fst a)))
             (fmul (magnitude_double a) (magnitude_double b)))"
    by (simp only: cosineSimilarity_double_forward [of a b])
  also have "\<dots> = cosineSimilarity_double b a"
    by (rule cosineSimilarity_double_backward [symmetric])
  finally show ?thesis .
qed















lemma magnitude_double_x:
  "magnitude_double
     [(''x'', Finite 1), (''y'', Finite (1 / 2 ^ 54)), (''z'', Finite (1 / 2 ^ 54))] = Finite 1"
  by (simp add: magnitude_double_def double_eval)

lemma magnitude_double_y:
  "magnitude_double [(''y'', Finite 2), (''z'', Finite 2), (''x'', Finite 1)] = Finite 3"
  by (simp add: magnitude_double_def double_eval)

lemma dotProduct_double_xy:
  "dotProduct_double
     [(''x'', Finite 1), (''y'', Finite (1 / 2 ^ 54)), (''z'', Finite (1 / 2 ^ 54))]
     [(''y'', Finite 2), (''z'', Finite 2), (''x'', Finite 1)] = Finite 1"
  by (simp add: dotProduct_double_def getOrZero_double_def Map_get_def new_Set_def
      Set_add_def double_eval)

lemma dotProduct_double_yx:
  "dotProduct_double
     [(''y'', Finite 2), (''z'', Finite 2), (''x'', Finite 1)]
     [(''x'', Finite 1), (''y'', Finite (1 / 2 ^ 54)), (''z'', Finite (1 / 2 ^ 54))]
     = Finite (1 + 1 / 2 ^ 52)"
  by (simp add: dotProduct_double_def getOrZero_double_def Map_get_def new_Set_def
      Set_add_def double_eval)

lemma cosineSimilarity_double_xy:
  "cosineSimilarity_double
     [(''x'', Finite 1), (''y'', Finite (1 / 2 ^ 54)), (''z'', Finite (1 / 2 ^ 54))]
     [(''y'', Finite 2), (''z'', Finite 2), (''x'', Finite 1)]
     = Finite (6004799503160661 / 18014398509481984)"
  by (simp only: cosineSimilarity_double_def Let_def magnitude_double_x magnitude_double_y
      dotProduct_double_xy)
    (simp add: double_eval)

lemma cosineSimilarity_double_yx:
  "cosineSimilarity_double
     [(''y'', Finite 2), (''z'', Finite 2), (''x'', Finite 1)]
     [(''x'', Finite 1), (''y'', Finite (1 / 2 ^ 54)), (''z'', Finite (1 / 2 ^ 54))]
     = Finite (6004799503160663 / 18014398509481984)"
  by (simp only: cosineSimilarity_double_def Let_def magnitude_double_x magnitude_double_y
      dotProduct_double_yx)
    (simp add: double_eval)

text \<open>
  Claim C10, as the code has it. The two orders of the arguments have the same guard
  and the same divisor, and add the same products over the same keys; each adds them
  in the order of the keys of its first argument, followed by the new keys of its
  second. So the two similarities are equal when this order is the same from both
  sides, as it is when both vectors hold the same keys in the same order. A key that
  one vector lacks adds the product 0, so for vectors without infinite weights it is
  enough that the keys the two vectors share come in the same order in both. With
  another order the rounded sums, and the similarities, can differ.
\<close>

theorem cosineSimilarity_double_argument_order:
  "cosineSimilarity_double a b =
     (if magnitude_double a = Finite 0 \<or> magnitude_double b = Finite 0 then Finite 0
      else fdiv (sumOfProducts a b (new_Set (map fst a @ map fst b)))
             (fmul (magnitude_double a) (magnitude_double b)))
   \<and> cosineSimilarity_double b a =
     (if magnitude_double a = Finite 0 \<or> magnitude_double b = Finite 0 then Finite 0
      else fdiv (sumOfProducts a b (new_Set (map fst b @ map fst a)))
             (fmul (magnitude_double a) (magnitude_double b)))
   \<and> set (new_Set (map fst a @ map fst b)) = set (new_Set (map fst b @ map fst a))
   \<and> (new_Set (map fst a @ map fst b) = new_Set (map fst b @ map fst a)
        \<longrightarrow> cosineSimilarity_double a b = cosineSimilarity_double b a)
   \<and> (map fst a = map fst b \<longrightarrow> cosineSimilarity_double a b = cosineSimilarity_double b a)
   \<and> (wfMap a \<and> wfMap b \<and> finiteWeights a \<and> finiteWeights b
        \<and> commonKeys a b = commonKeys b a
        \<longrightarrow> cosineSimilarity_double a b = cosineSimilarity_double b a)"
proof (intro conjI impI)
  show "cosineSimilarity_double a b =
     (if magnitude_double a = Finite 0 \<or> magnitude_double b = Finite 0 then Finite 0
      else fdiv (sumOfProducts a b (new_Set (map fst a @ map fst b)))
             (fmul (magnitude_double a) (magnitude_double b)))"
    by (rule cosineSimilarity_double_forward)
  show "cosineSimilarity_double b a =
     (if magnitude_double a = Finite 0 \<or> magnitude_double b = Finite 0 then Finite 0
      else fdiv (sumOfProducts a b (new_Set (map fst b @ map fst a)))
             (fmul (magnitude_double a) (magnitude_double b)))"
    by (rule cosineSimilarity_double_backward)
  show "set (new_Set (map fst a @ map fst b)) = set (new_Set (map fst b @ map fst a))"
    by (simp add: set_new_Set Un_commute)
  show "cosineSimilarity_double a b = cosineSimilarity_double b a"
    if "new_Set (map fst a @ map fst b) = new_Set (map fst b @ map fst a)"
    using that by (rule cosineSimilarity_double_same_order)
  show "cosineSimilarity_double a b = cosineSimilarity_double b a"
    if "map fst a = map fst b"
    using that by (intro cosineSimilarity_double_same_order) simp
  show "cosineSimilarity_double a b = cosineSimilarity_double b a"
    if "wfMap a \<and> wfMap b \<and> finiteWeights a \<and> finiteWeights b
        \<and> commonKeys a b = commonKeys b a"
    using that by (intro cosineSimilarity_double_common_order) simp_all
qed

theorem cosineSimilarity_double_argument_order_witness:
  "new_Set (map fst [(''x'', Finite 1), (''y'', Finite 2)]
            @ map fst [(''x'', Finite 3), (''y'', Finite 4), (''z'', Finite 5)])
     = new_Set (map fst [(''x'', Finite 3), (''y'', Finite 4), (''z'', Finite 5)]
                @ map fst [(''x'', Finite 1), (''y'', Finite 2)])
   \<and> cosineSimilarity_double [(''x'', Finite 1), (''y'', Finite 2)]
        [(''x'', Finite 3), (''y'', Finite 4), (''z'', Finite 5)]
     = cosineSimilarity_double [(''x'', Finite 3), (''y'', Finite 4), (''z'', Finite 5)]
         [(''x'', Finite 1), (''y'', Finite 2)]
   \<and> map fst [(''x'', Finite 1), (''y'', Finite 2)] = map fst [(''x'', Finite 3), (''y'', Finite 4)]
   \<and> cosineSimilarity_double [(''x'', Finite 1), (''y'', Finite 2)]
        [(''x'', Finite 3), (''y'', Finite 4)]
     = cosineSimilarity_double [(''x'', Finite 3), (''y'', Finite 4)]
         [(''x'', Finite 1), (''y'', Finite 2)]
   \<and> commonKeys [(''x'', Finite 1), (''y'', Finite 2)]
        [(''w'', Finite 5), (''x'', Finite 3), (''z'', Finite 6), (''y'', Finite 4)]
     = commonKeys [(''w'', Finite 5), (''x'', Finite 3), (''z'', Finite 6), (''y'', Finite 4)]
         [(''x'', Finite 1), (''y'', Finite 2)]
   \<and> cosineSimilarity_double [(''x'', Finite 1), (''y'', Finite 2)]
        [(''w'', Finite 5), (''x'', Finite 3), (''z'', Finite 6), (''y'', Finite 4)]
     = cosineSimilarity_double
         [(''w'', Finite 5), (''x'', Finite 3), (''z'', Finite 6), (''y'', Finite 4)]
         [(''x'', Finite 1), (''y'', Finite 2)]"
proof -
  have k: "new_Set (map fst [(''x'', Finite 1), (''y'', Finite 2)]
            @ map fst [(''x'', Finite 3), (''y'', Finite 4), (''z'', Finite 5)])
     = new_Set (map fst [(''x'', Finite 3), (''y'', Finite 4), (''z'', Finite 5)]
                @ map fst [(''x'', Finite 1), (''y'', Finite 2)])"
    by (simp add: new_Set_def Set_add_def)
  have m: "map fst [(''x'', Finite 1), (''y'', Finite 2)]
           = map fst [(''x'', Finite 3), (''y'', Finite 4)]"
    by simp
  have c: "wfMap [(''x'', Finite 1), (''y'', Finite 2)]
      \<and> wfMap [(''w'', Finite 5), (''x'', Finite 3), (''z'', Finite 6), (''y'', Finite 4)]
      \<and> finiteWeights [(''x'', Finite 1), (''y'', Finite 2)]
      \<and> finiteWeights [(''w'', Finite 5), (''x'', Finite 3), (''z'', Finite 6), (''y'', Finite 4)]
      \<and> commonKeys [(''x'', Finite 1), (''y'', Finite 2)]
            [(''w'', Finite 5), (''x'', Finite 3), (''z'', Finite 6), (''y'', Finite 4)]
          = commonKeys [(''w'', Finite 5), (''x'', Finite 3), (''z'', Finite 6), (''y'', Finite 4)]
              [(''x'', Finite 1), (''y'', Finite 2)]"
    by (simp add: wfMap_def finiteWeights_def commonKeys_def)
  show ?thesis
    using cosineSimilarity_double_argument_order
        [of "[(''x'', Finite 1), (''y'', Finite 2)]"
            "[(''x'', Finite 3), (''y'', Finite 4), (''z'', Finite 5)]"]
      cosineSimilarity_double_argument_order
        [of "[(''x'', Finite 1), (''y'', Finite 2)]" "[(''x'', Finite 3), (''y'', Finite 4)]"]
      cosineSimilarity_double_argument_order
        [of "[(''x'', Finite 1), (''y'', Finite 2)]"
            "[(''w'', Finite 5), (''x'', Finite 3), (''z'', Finite 6), (''y'', Finite 4)]"]
      k m c
    by blast
qed

text \<open>
  Claim C10, as the specification states it, fails. With the weights 1,
  \<open>2 ^ - 54\<close>, \<open>2 ^ - 54\<close> for \<open>x\<close>, \<open>y\<close>, \<open>z\<close> in one vector and 2, 2, 1 for \<open>y\<close>,
  \<open>z\<close>, \<open>x\<close> in the other, the products are 1, \<open>2 ^ - 53\<close> and \<open>2 ^ - 53\<close>. Added
  from 1 on, each small product is lost to the rounding; added from the small ones on,
  they count. The two similarities are the doubles \<open>0.3333333333333333\<close> and
  \<open>0.3333333333333334\<close>.
\<close>

theorem cosineSimilarity_double_not_symmetric:
  "cosineSimilarity_double
     [(''x'', Finite 1), (''y'', Finite (1 / 2 ^ 54)), (''z'', Finite (1 / 2 ^ 54))]
     [(''y'', Finite 2), (''z'', Finite 2), (''x'', Finite 1)]
     = Finite (6004799503160661 / 18014398509481984)
   \<and> cosineSimilarity_double
     [(''y'', Finite 2), (''z'', Finite 2), (''x'', Finite 1)]
     [(''x'', Finite 1), (''y'', Finite (1 / 2 ^ 54)), (''z'', Finite (1 / 2 ^ 54))]
     = Finite (6004799503160663 / 18014398509481984)"
  using cosineSimilarity_double_xy cosineSimilarity_double_yx by blast

section \<open>Ingestion\<close>

lemma documents_recalculate: "documents (recalculate kb) = documents kb"
  by (simp add: recalculate_def Let_def)

lemma chunks_recalculate: "chunks (recalculate kb) = chunks kb"
  by (simp add: recalculate_def Let_def)

lemma idfMap_recalculate:
  "idfMap (recalculate kb) = (if chunks kb = [] then [] else calculateIdf (chunks kb))"
  by (simp add: recalculate_def Let_def)

lemma chunkTfidfVectors_recalculate:
  "chunkTfidfVectors (recalculate kb) =
     (if chunks kb = [] then []
      else foldl (\<lambda>m c. Map_set m (getChunkId c)
                    (vectorizeWithTfidf (text' c) (calculateIdf (chunks kb))))
             [] (chunks kb))"
  by (simp add: recalculate_def Let_def)


lemma decimal_0: "decimal 0 = ''0''"
  by code_simp

lemma addDocument_appends:
  "documents (addDocumentToKnowledgeBase kb n t s x)
     = documents kb @ [\<lparr>name = n, type' = t, size' = s\<rparr>]
   \<and> chunks (addDocumentToKnowledgeBase kb n t s x) = chunks kb @ fst (intelligentChunking x n)"
  by (simp add: addDocumentToKnowledgeBase_def documents_recalculate chunks_recalculate
      split_beta)

lemma intelligentChunking_empty: "fst (intelligentChunking [] n) = []"
  by (simp add: intelligentChunking_def chunkWith_empty Let_def)

lemma intelligentChunking_short:
  assumes "x \<noteq> []" and "length x \<le> 400" and "newlineCount x = 0"
  shows "fst (intelligentChunking x n)
         = [\<lparr>source = n, chunkIndex = 0, text' = x, metadata = Some narrative\<rparr>]"
proof -
  have t: "analyzeContentType x = narrative"
    using assms by (simp add: analyzeContentType_def NEWLINE_DENSITY_THRESHOLD_def)
  have "chunkWith NARRATIVE_CHUNK_CONFIG narrative x n
        = [\<lparr>source = n, chunkIndex = 0, text' = x, metadata = Some narrative\<rparr>]"
    unfolding chunkWith_def
    apply (subst chunkLoop.simps)
    apply (subst chunkLoop.simps)
    using assms by (simp add: NARRATIVE_CHUNK_CONFIG_def Let_def substring_def)
  then show ?thesis by (simp add: intelligentChunking_def Let_def t)
qed

text \<open>
  Claim C5, as the code has it. Ingestion has no failure: whatever the name and the
  text, the text that is empty and the name that an earlier document has included,
  it appends one document with the given name, type and size, and the chunks that the
  chunker makes of the text (none for the text of length 0), after the documents and
  chunks that were there.
\<close>

theorem addDocumentToKnowledgeBase_appends:
  "documents (addDocumentToKnowledgeBase kb n t s x)
     = documents kb @ [\<lparr>name = n, type' = t, size' = s\<rparr>]
   \<and> chunks (addDocumentToKnowledgeBase kb n t s x) = chunks kb @ fst (intelligentChunking x n)
   \<and> chunks (addDocumentToKnowledgeBase kb n t s []) = chunks kb"
  by (simp add: addDocument_appends intelligentChunking_empty)

text \<open>
  Claim C5, as the specification states it, fails. The empty text is ingested: its
  document is appended. A text of two spaces is ingested, with a chunk of two spaces.
  And a second document of the name \<open>a.txt\<close> is ingested after the first: the knowledge
  base then holds two documents of that name, and two chunks of the id \<open>a.txt_0\<close>.
\<close>

theorem addDocumentToKnowledgeBase_never_fails:
  "documents (addDocumentToKnowledgeBase emptyKnowledgeBase ''a.txt'' ''text/plain'' 0 [])
     = [\<lparr>name = ''a.txt'', type' = ''text/plain'', size' = 0\<rparr>]
   \<and> chunks (addDocumentToKnowledgeBase emptyKnowledgeBase ''a.txt'' ''text/plain'' 2 ''  '')
     = [\<lparr>source = ''a.txt'', chunkIndex = 0, text' = ''  '', metadata = Some narrative\<rparr>]
   \<and> map name (documents (addDocumentToKnowledgeBase
        (addDocumentToKnowledgeBase emptyKnowledgeBase ''a.txt'' ''text/plain'' 3 ''cat'')
        ''a.txt'' ''text/plain'' 3 ''dog''))
     = [''a.txt'', ''a.txt'']
   \<and> map getChunkId (chunks (addDocumentToKnowledgeBase
        (addDocumentToKnowledgeBase emptyKnowledgeBase ''a.txt'' ''text/plain'' 3 ''cat'')
        ''a.txt'' ''text/plain'' 3 ''dog''))
     = [''a.txt_0'', ''a.txt_0'']"
  by (simp add: addDocument_appends intelligentChunking_empty intelligentChunking_short
      newlineCount_def newline_def emptyKnowledgeBase_def getChunkId_def decimal_0)

section \<open>Ranking\<close>









text \<open>
  After the effect has run on chunks of pairwise distinct ids, the vector stored under
  the id of a chunk is the vector of its own text, so its score is the cosine
  similarity of the query and that text. With two chunks of one id, both are scored
  against the vector of the later one.
\<close>

lemma Map_get_foldl_other:
  "k \<notin> g ` set cs \<Longrightarrow>
     Map_get (foldl (\<lambda>m c. Map_set m (g c) (f c)) acc cs) k = Map_get acc k"
  by (induction cs arbitrary: acc) (auto simp: Map_get_Map_set)

lemma Map_get_foldl_member:
  "distinct (map g cs) \<Longrightarrow> c \<in> set cs \<Longrightarrow>
     Map_get (foldl (\<lambda>m c. Map_set m (g c) (f c)) acc cs) (g c) = Some (f c)"
proof (induction cs arbitrary: acc)
  case Nil
  then show ?case by simp
next
  case (Cons x xs)
  show ?case
  proof (cases "c = x")
    case True
    have "g x \<notin> g ` set xs" using Cons.prems(1) by simp
    then show ?thesis
      by (simp add: True Map_get_foldl_other Map_get_Map_set)
  next
    case False
    then have "c \<in> set xs" using Cons.prems(2) by simp
    moreover have "distinct (map g xs)" using Cons.prems(1) by simp
    ultimately show ?thesis by (simp add: Cons.IH)
  qed
qed

lemma chunkScore_recalculate:
  assumes "distinct (map getChunkId (chunks kb))" and "c \<in> set (chunks kb)"
  shows "chunkScore (recalculate kb) query c
         = cosineSimilarity (vectorizeWithTfidf query (calculateIdf (chunks kb)))
             (vectorizeWithTfidf (text' c) (calculateIdf (chunks kb)))"
proof -
  have ne: "chunks kb \<noteq> []" using assms(2) by auto
  have "Map_get (chunkTfidfVectors (recalculate kb)) (getChunkId c)
        = Some (vectorizeWithTfidf (text' c) (calculateIdf (chunks kb)))"
    using ne Map_get_foldl_member [OF assms, of "\<lambda>c. vectorizeWithTfidf (text' c) (calculateIdf (chunks kb))" "[]"]
    by (simp add: chunkTfidfVectors_recalculate)
  then show ?thesis
    using ne by (simp add: chunkScore_def idfMap_recalculate)
qed

















end
